theory Spec2Isabelle
  imports Main "HOL-Library.Word" "HOL-Library.Monad_Syntax"
begin

unbundle bit_operations_syntax

section \<open>Common pieces\<close>

text \<open>
  Every \<open>casadi_assert\<close>, \<open>casadi_assert_dev\<close>, \<open>casadi_assert_message\<close> and
  \<open>casadi_error\<close> of the sources throws an exception; the model returns it as the left
  summand of the result, carrying the message text the call site gives. An exception of
  the standard library is told apart from them.
\<close>

datatype error = CasadiException string | StdException string

text \<open>
  Decimal rendering of a number, as \<open>operator<<\<close> of a stream and the helper \<open>str\<close> do for
  an integer argument.
\<close>

definition digit_char :: "nat \<Rightarrow> char" where
  "digit_char d = ''0123456789'' ! d"

fun str_nat :: "nat \<Rightarrow> string" where
  "str_nat n = (if n < 10 then [digit_char n] else str_nat (n div 10) @ [digit_char (n mod 10)])"

declare str_nat.simps [simp del]

definition str_int :: "int \<Rightarrow> string" where
  "str_int i = (if i < 0 then CHR ''-'' # str_nat (nat (- i)) else str_nat (nat i))"

section \<open>Custom IO schemes (src/symbolic/fx/io_scheme_internal.cpp)\<close>

text \<open>
  \<open>IOSchemeCustomInternal\<close> holds the vector \<open>entries_\<close> and the \<open>std::map\<close>
  \<open>entrymap_\<close> from entry name to position (a member's trailing underscore is
  dropped in the field names here).
\<close>

record IOSchemeCustomInternal =
  entries :: "string list"
  entrymap :: "string \<rightharpoonup> int"

text \<open>
  The constructor's loop \<open>for (int i=0;i<entries.size();++i) entrymap_[entries[i]] = i\<close>,
  started at position \<open>i\<close> with the map built so far. A later duplicate overwrites an
  earlier one.
\<close>

function fill_entrymap :: "string list \<Rightarrow> nat \<Rightarrow> (string \<rightharpoonup> int) \<Rightarrow> (string \<rightharpoonup> int)" where
  "fill_entrymap es i m =
     (if i < length es then fill_entrymap es (Suc i) (m(es ! i \<mapsto> int i)) else m)"
  by pat_completeness auto
termination
  by (relation "measure (\<lambda>(es, i, m). length es - i)") auto

declare fill_entrymap.simps [simp del]

definition IOSchemeCustom :: "string list \<Rightarrow> IOSchemeCustomInternal" where
  "IOSchemeCustom es = \<lparr>entries = es, entrymap = fill_entrymap es 0 Map.empty\<rparr>"

definition size_io :: "IOSchemeCustomInternal \<Rightarrow> nat" where
  "size_io s = length (entries s)"

text \<open>\<open>entryNames\<close>: the entries joined by a comma and a space.\<close>

fun join_names :: "string list \<Rightarrow> string" where
  "join_names [] = []"
| "join_names [e] = e"
| "join_names (e # es) = e @ '', '' @ join_names es"

definition entryNames :: "IOSchemeCustomInternal \<Rightarrow> string" where
  "entryNames s = join_names (entries s)"

definition entry :: "IOSchemeCustomInternal \<Rightarrow> int \<Rightarrow> error + string" where
  "entry s i =
     (if i \<ge> 0 \<and> i < int (length (entries s)) then Inr (entries s ! nat i)
      else Inl (CasadiException (''customIO::entry(): requesting entry for index '' @ str_int i
                  @ '', but IOScheme is only length '' @ str_nat (length (entries s)))))"

definition index :: "IOSchemeCustomInternal \<Rightarrow> string \<Rightarrow> error + int" where
  "index s name =
     (case entrymap s name of
        None \<Rightarrow> Inl (CasadiException (''customIO::index(): entry '' @ [CHR 0x27] @ name @ [CHR 0x27]
                  @ '' not available. Available entries are '' @ entryNames s))
      | Some i \<Rightarrow> Inr i)"

text \<open>The error branches, as predicates a statement can name.\<close>

definition failed :: "error + 'a \<Rightarrow> bool" where
  "failed r = (case r of Inl e \<Rightarrow> True | Inr v \<Rightarrow> False)"

section \<open>Strings as \<open>std::string\<close> has them\<close>

text \<open>
  \<open>std::string::npos\<close> is the largest \<open>size_t\<close>. Positions are natural numbers; where the
  source adds to or subtracts from a position that may be \<open>npos\<close>, the arithmetic is the
  \<open>size_t\<close> one, modulo \<open>2^64\<close>. A \<open>std::string\<close> is shorter than \<open>npos\<close>.
\<close>

definition npos :: nat where
  "npos = 2 ^ 64 - 1"

definition sz_plus :: "nat \<Rightarrow> nat \<Rightarrow> nat" where
  "sz_plus a b = (a + b) mod 2 ^ 64"

definition sz_minus :: "nat \<Rightarrow> nat \<Rightarrow> nat" where
  "sz_minus a b = (a + (2 ^ 64 - b mod 2 ^ 64)) mod 2 ^ 64"

fun starts_with :: "string \<Rightarrow> string \<Rightarrow> bool" where
  "starts_with [] s = True"
| "starts_with (p # ps) [] = False"
| "starts_with (p # ps) (c # cs) = (p = c \<and> starts_with ps cs)"

text \<open>The first position at which \<open>pat\<close> occurs in \<open>s\<close>, if any.\<close>

fun first_occurrence :: "string \<Rightarrow> string \<Rightarrow> nat option" where
  "first_occurrence pat [] = (if pat = [] then Some 0 else None)"
| "first_occurrence pat (c # cs) =
     (if starts_with pat (c # cs) then Some 0 else map_option Suc (first_occurrence pat cs))"

text \<open>\<open>s.find(pat, pos)\<close>: the first occurrence at or after \<open>pos\<close>, or \<open>npos\<close>.\<close>

definition find_str :: "string \<Rightarrow> string \<Rightarrow> nat \<Rightarrow> nat" where
  "find_str s pat pos =
     (if length s < pos then npos
      else case first_occurrence pat (drop pos s) of None \<Rightarrow> npos | Some i \<Rightarrow> pos + i)"

text \<open>
  \<open>s.substr(pos, count)\<close> for \<open>pos \<le> s.size()\<close> (every call of the sources is such a
  call; beyond the size \<open>substr\<close> throws).
\<close>

definition substr :: "string \<Rightarrow> nat \<Rightarrow> nat \<Rightarrow> string" where
  "substr s pos count = take count (drop pos s)"

text \<open>\<open>s.erase(pos)\<close> and \<open>s.replace(pos, len, t)\<close>.\<close>

definition erase_from :: "string \<Rightarrow> nat \<Rightarrow> string" where
  "erase_from s pos = take pos s"

definition replace_str :: "string \<Rightarrow> nat \<Rightarrow> nat \<Rightarrow> string \<Rightarrow> string" where
  "replace_str s pos len t = take pos s @ t @ drop (pos + len) s"

text \<open>\<open>s.find_last_not_of(c)\<close>: the last position holding another character, or \<open>npos\<close>.\<close>

fun last_not_of :: "char \<Rightarrow> string \<Rightarrow> nat option" where
  "last_not_of c [] = None"
| "last_not_of c (x # xs) =
     (case last_not_of c xs of Some i \<Rightarrow> Some (Suc i)
      | None \<Rightarrow> (if x = c then None else Some 0))"

definition find_last_not_of :: "string \<Rightarrow> char \<Rightarrow> nat" where
  "find_last_not_of s c = (case last_not_of c s of None \<Rightarrow> npos | Some i \<Rightarrow> i)"

definition endl :: string where
  "endl = [CHR 0x0A]"

section \<open>The code generator (src/casadi/core/code_generator.cpp)\<close>

subsection \<open>State\<close>

text \<open>
  A \<open>Function\<close> is a shared pointer and \<open>e.f==f\<close> compares the addresses, so a function
  handle is its address. A \<open>double\<close> is its 64 bits, an \<open>int\<close> its 32 bits, a \<open>size_t\<close>
  hash value 64 bits.
\<close>

type_synonym Function = nat
type_synonym double = "64 word"
type_synonym cint = "32 word"
type_synonym size_t = "64 word"

text \<open>The kinds of the \<open>switch\<close> of \<open>add_auxiliary\<close>.\<close>

datatype Auxiliary =
    AUX_COPY | AUX_SWAP | AUX_SCAL | AUX_AXPY | AUX_DOT | AUX_BILIN | AUX_RANK1 | AUX_IAMAX
  | AUX_INTERPN | AUX_INTERPN_GRAD | AUX_DE_BOOR | AUX_ND_BOOR_EVAL | AUX_FLIP | AUX_LOW
  | AUX_INTERPN_WEIGHTS | AUX_INTERPN_INTERPOLATE | AUX_NORM_1 | AUX_NORM_2 | AUX_NORM_INF
  | AUX_FILL | AUX_MV | AUX_MV_DENSE | AUX_MTIMES | AUX_PROJECT | AUX_DENSIFY | AUX_TRANS
  | AUX_TO_MEX | AUX_FROM_MEX | AUX_FINITE_DIFF

text \<open>
  The members of \<open>CodeGenerator\<close> that the modelled operations read or write. The string
  streams are the text they hold; the sets are \<open>std::set\<close>s; a multimap is the list of its
  pairs in insertion order, which is the order \<open>equal_range\<close> walks the pairs of one key in.
  A member's trailing underscore is dropped; the stream \<open>includes\<close> is
  \<open>includes_stream\<close>.
\<close>

record CodeGenerator =
  indent :: int
  current_indent :: int
  newline :: bool
  buffer :: string
  includes_stream :: string
  auxiliaries :: string
  body :: string
  header :: string
  added_includes :: "string set"
  added_externals :: "string set"
  added_shorthands :: "string set"
  added_auxiliaries :: "(Auxiliary \<times> string list) list"
  added_functions :: "(Function \<times> string) list"
  double_constants :: "double list list"
  integer_constants :: "cint list list"
  added_double_constants :: "(size_t \<times> nat) list"
  added_integer_constants :: "(size_t \<times> nat) list"

text \<open>\<open>m.equal_range(k)\<close>: the pairs of key \<open>k\<close>, in insertion order.\<close>

definition equal_range :: "'k \<Rightarrow> ('k \<times> 'v) list \<Rightarrow> ('k \<times> 'v) list" where
  "equal_range k m = filter (\<lambda>e. fst e = k) m"

subsection \<open>Includes, external declarations, shorthands\<close>

definition add_include :: "string \<Rightarrow> bool \<Rightarrow> string \<Rightarrow> CodeGenerator \<Rightarrow> CodeGenerator" where
  "add_include new_include relative_path use_ifdef g =
     (if new_include \<in> added_includes g then g
      else g\<lparr>added_includes := insert new_include (added_includes g),
             includes_stream := includes_stream g
               @ (if use_ifdef \<noteq> [] then ''#ifdef '' @ use_ifdef @ endl else [])
               @ (if relative_path then ''#include '' @ [CHR 0x22] @ new_include @ [CHR 0x22] @ endl
                  else ''#include <'' @ new_include @ ''>'' @ endl)
               @ (if use_ifdef \<noteq> [] then ''#endif'' @ endl else [])\<rparr>)"

definition add_external :: "string \<Rightarrow> CodeGenerator \<Rightarrow> CodeGenerator" where
  "add_external new_external g = g\<lparr>added_externals := insert new_external (added_externals g)\<rparr>"

text \<open>The \<open>const\<close> overload of \<open>shorthand\<close> looks a name up.\<close>

definition shorthand :: "string \<Rightarrow> CodeGenerator \<Rightarrow> error + string" where
  "shorthand name g =
     (if name \<in> added_shorthands g then Inr (''casadi_'' @ name)
      else Inl (CasadiException (''No such macro: '' @ name)))"

subsection \<open>The constant pools\<close>

text \<open>
  \<open>hash_combine\<close> is declared in a header outside these sources, so the hash functions
  take it as a parameter: the scalar overload \<open>hash_combine(seed, value)\<close> for the words
  of a \<open>double\<close> vector (one \<open>size_t\<close> word per \<open>double\<close>, both being 8 bytes wide), the
  vector overload \<open>hash_combine(seed, v)\<close> for an \<open>int\<close> vector.
\<close>

definition hash_double :: "(size_t \<Rightarrow> size_t \<Rightarrow> size_t) \<Rightarrow> double list \<Rightarrow> size_t" where
  "hash_double hash_combine v = foldl hash_combine 0 v"

definition hash_int :: "(size_t \<Rightarrow> cint list \<Rightarrow> size_t) \<Rightarrow> cint list \<Rightarrow> size_t" where
  "hash_int hash_combine_vec v = hash_combine_vec 0 v"

text \<open>
  The comparison of two \<open>double\<close>s by \<open>==\<close>, on their bits: a NaN (exponent bits all set,
  fraction not zero) equals nothing, the two zeros equal each other, and otherwise equal
  values have equal bits.
\<close>

definition is_nan :: "double \<Rightarrow> bool" where
  "is_nan d = (d AND 0x7FF0000000000000 = 0x7FF0000000000000 \<and> d AND 0x000FFFFFFFFFFFFF \<noteq> 0)"

definition is_zero :: "double \<Rightarrow> bool" where
  "is_zero d = (d AND 0x7FFFFFFFFFFFFFFF = 0)"

definition double_eq :: "double \<Rightarrow> double \<Rightarrow> bool" where
  "double_eq a b = (\<not> is_nan a \<and> \<not> is_nan b \<and> (a = b \<or> (is_zero a \<and> is_zero b)))"

text \<open>
  Modelled from the spec: \<open>equal\<close>, the vector comparison \<open>get_constant\<close> calls, is declared
  in the class header, which is not among the sources. The spec has the bucket scanned
  for an element-wise-equal entry of equal length: the sizes are equal and no pair of
  elements compares unequal by the element type's \<open>!=\<close>.
\<close>

definition equal_vec :: "('a \<Rightarrow> 'a \<Rightarrow> bool) \<Rightarrow> 'a list \<Rightarrow> 'a list \<Rightarrow> bool" where
  "equal_vec eq v1 v2 = (if length v1 \<noteq> length v2 then False else list_all2 eq v1 v2)"

text \<open>
  The loop over the bucket: the first pair of the range whose constant equals \<open>v\<close> ends
  the search with its index.
\<close>

fun scan_range :: "('a list \<Rightarrow> 'a list \<Rightarrow> bool) \<Rightarrow> 'a list \<Rightarrow> 'a list list \<Rightarrow> (size_t \<times> nat) list
    \<Rightarrow> nat option" where
  "scan_range eqv v consts [] = None"
| "scan_range eqv v consts (e # es) =
     (if eqv v (consts ! snd e) then Some (snd e) else scan_range eqv v consts es)"

definition get_constant_double ::
  "(size_t \<Rightarrow> size_t \<Rightarrow> size_t) \<Rightarrow> double list \<Rightarrow> bool \<Rightarrow> CodeGenerator
    \<Rightarrow> (error + nat) \<times> CodeGenerator" where
  "get_constant_double hash_combine v allow_adding g =
     (let h = hash_double hash_combine v in
      case scan_range (equal_vec double_eq) v (double_constants g)
             (equal_range h (added_double_constants g)) of
        Some i \<Rightarrow> (Inr i, g)
      | None \<Rightarrow>
          if allow_adding then
            (let ind = length (double_constants g) in
             (Inr ind, g\<lparr>double_constants := double_constants g @ [v],
                         added_double_constants := added_double_constants g @ [(h, ind)]\<rparr>))
          else (Inl (CasadiException ''Constant not found''), g))"

definition get_constant_int ::
  "(size_t \<Rightarrow> cint list \<Rightarrow> size_t) \<Rightarrow> cint list \<Rightarrow> bool \<Rightarrow> CodeGenerator
    \<Rightarrow> (error + nat) \<times> CodeGenerator" where
  "get_constant_int hash_combine_vec v allow_adding g =
     (let h = hash_int hash_combine_vec v in
      case scan_range (equal_vec (=)) v (integer_constants g)
             (equal_range h (added_integer_constants g)) of
        Some i \<Rightarrow> (Inr i, g)
      | None \<Rightarrow>
          if allow_adding then
            (let ind = length (integer_constants g) in
             (Inr ind, g\<lparr>integer_constants := integer_constants g @ [v],
                         added_integer_constants := added_integer_constants g @ [(h, ind)]\<rparr>))
          else (Inl (CasadiException ''Constant not found''), g))"

text \<open>
  Requests to the two pools, run one after the other. A failed read-only lookup throws
  and leaves the generator as it was; the caller goes on with it.
\<close>

datatype request = Double "double list" bool | Integer "cint list" bool

fun serve :: "(size_t \<Rightarrow> size_t \<Rightarrow> size_t) \<Rightarrow> (size_t \<Rightarrow> cint list \<Rightarrow> size_t) \<Rightarrow> request
    \<Rightarrow> CodeGenerator \<Rightarrow> CodeGenerator" where
  "serve hc hcv (Double v a) g = snd (get_constant_double hc v a g)"
| "serve hc hcv (Integer v a) g = snd (get_constant_int hcv v a g)"

definition serve_all :: "(size_t \<Rightarrow> size_t \<Rightarrow> size_t) \<Rightarrow> (size_t \<Rightarrow> cint list \<Rightarrow> size_t)
    \<Rightarrow> request list \<Rightarrow> CodeGenerator \<Rightarrow> CodeGenerator" where
  "serve_all hc hcv rs g = foldl (\<lambda>g r. serve hc hcv r g) g rs"

text \<open>
  Every index recorded in a hash index points into its vector of constants: true of a new
  generator, kept by \<open>get_constant\<close>, and what makes \<open>double_constants_[i->second]\<close> a
  defined read.
\<close>

definition index_ok :: "'a list list \<Rightarrow> (size_t \<times> nat) list \<Rightarrow> bool" where
  "index_ok consts idx = list_all (\<lambda>e. snd e < length consts) idx"

definition pools_ok :: "CodeGenerator \<Rightarrow> bool" where
  "pools_ok g = (index_ok (double_constants g) (added_double_constants g)
                 \<and> index_ok (integer_constants g) (added_integer_constants g))"

text \<open>
  What a request may do to the pools: append to the vectors of constants and to the hash
  indexes, nothing else.
\<close>

definition extends :: "'a list \<Rightarrow> 'a list \<Rightarrow> bool" where
  "extends xs ys = (\<exists>zs. ys = xs @ zs)"

definition grows :: "CodeGenerator \<Rightarrow> CodeGenerator \<Rightarrow> bool" where
  "grows g g' = (extends (double_constants g) (double_constants g')
               \<and> extends (added_double_constants g) (added_double_constants g')
               \<and> extends (integer_constants g) (integer_constants g')
               \<and> extends (added_integer_constants g) (added_integer_constants g'))"

text \<open>
  The usual mixing step of a \<open>hash_combine\<close> (a golden-ratio constant and two shifts), a
  hash that separates nothing, and their vector forms: instances to run the pools with.
\<close>

definition hash_combine_mix :: "size_t \<Rightarrow> size_t \<Rightarrow> size_t" where
  "hash_combine_mix seed v = seed XOR (v + 0x9e3779b9 + push_bit 6 seed + drop_bit 2 seed)"

definition hash_combine_mix_vec :: "size_t \<Rightarrow> cint list \<Rightarrow> size_t" where
  "hash_combine_mix_vec seed v = foldl (\<lambda>s x. hash_combine_mix s (scast x)) seed v"

definition hash_combine_flat :: "size_t \<Rightarrow> size_t \<Rightarrow> size_t" where
  "hash_combine_flat seed v = 0"

definition hash_combine_flat_vec :: "size_t \<Rightarrow> cint list \<Rightarrow> size_t" where
  "hash_combine_flat_vec seed v = 0"

subsection \<open>Construction\<close>

text \<open>
  The constructor called with an empty option dictionary and a name that passes
  \<open>check_name\<close>: the containers and streams start empty, \<open>indent_\<close> is 2, the generator
  is at the start of a line at depth 0, and \<open>math.h\<close> is included (none of \<open>main\<close>,
  \<open>mex\<close>, \<open>with_mem\<close> is set). \<open>add_include\<close> is declared with \<open>relative_path\<close> false and
  an empty \<open>use_ifdef\<close> as defaults.
\<close>

definition members_initial :: CodeGenerator where
  "members_initial =
     \<lparr>indent = 2, current_indent = 0, newline = True, buffer = [], includes_stream = [],
      auxiliaries = [], body = [], header = [], added_includes = {}, added_externals = {},
      added_shorthands = {}, added_auxiliaries = [], added_functions = [],
      double_constants = [], integer_constants = [], added_double_constants = [],
      added_integer_constants = []\<rparr>"

definition CodeGenerator_new :: CodeGenerator where
  "CodeGenerator_new = add_include ''math.h'' False [] members_initial"

subsection \<open>Formatted output\<close>

text \<open>
  Modelled from the spec: \<open>indent()\<close> and \<open>unindent()\<close> are defined in the class header,
  which is not among the sources. The spec: the depth is never below zero, it rises on an
  opening-brace character and falls on a closing one, and closing beyond zero depth is an
  indentation underflow, a reported failure and never a silently wrapped value.
\<close>

definition indent_cg :: "CodeGenerator \<Rightarrow> CodeGenerator" where
  "indent_cg g = g\<lparr>current_indent := current_indent g + 1\<rparr>"

definition unindent :: "CodeGenerator \<Rightarrow> error + CodeGenerator" where
  "unindent g =
     (if current_indent g \<le> 0 then Inl (CasadiException ''indentation underflow'')
      else Inr (g\<lparr>current_indent := current_indent g - 1\<rparr>))"

text \<open>The loop of \<open>print_formatted\<close> over the characters of the fragment.\<close>

fun scan_braces :: "string \<Rightarrow> CodeGenerator \<Rightarrow> error + CodeGenerator" where
  "scan_braces [] g = Inr g"
| "scan_braces (c # cs) g =
     (if c = CHR ''{'' then scan_braces cs (indent_cg g)
      else if c = CHR ''}'' then (case unindent g of Inl e \<Rightarrow> Inl e | Inr g1 \<Rightarrow> scan_braces cs g1)
      else scan_braces cs g)"

text \<open>
  The block of \<open>print_formatted\<close> that runs at the start of a line: the assertion, then the
  indentation. \<open>string(n, ' ')\<close> takes a \<open>size_t\<close>; a negative \<open>int\<close> converts to a length
  no string can have.
\<close>

definition start_line :: "string \<Rightarrow> CodeGenerator \<Rightarrow> error + CodeGenerator" where
  "start_line s g =
     (let shift = (if hd s = CHR ''}'' then - 1 else 0) in
      if \<not> (current_indent g + shift \<ge> 0) then Inl (CasadiException ''current_indent_+shift>=0'')
      else if indent g * (current_indent g + shift) < 0 then Inl (StdException ''basic_string'')
      else Inr (g\<lparr>buffer := buffer g @ replicate (nat (indent g * (current_indent g + shift))) CHR '' '',
                   newline := False\<rparr>))"

definition print_formatted :: "string \<Rightarrow> CodeGenerator \<Rightarrow> error + CodeGenerator" where
  "print_formatted s g =
     (if s = [] then Inr g
      else case (if newline g then start_line s g else Inr g) of
             Inl e \<Rightarrow> Inl e
           | Inr g1 \<Rightarrow> scan_braces s (g1\<lparr>buffer := buffer g1 @ s\<rparr>))"

text \<open>Where \<open>find\<close> reports an occurrence, the occurrence lies inside the string.\<close>

lemma first_occurrence_bound:
  "first_occurrence pat s = Some i \<Longrightarrow> i + length pat \<le> length s"
proof (induction s arbitrary: i)
  case Nil
  then show ?case by (simp split: if_splits)
next
  case (Cons c cs)
  have sw: "starts_with p t \<Longrightarrow> length p \<le> length t" for p t :: string
    by (induction p t rule: starts_with.induct) auto
  show ?case
  proof (cases "starts_with pat (c # cs)")
    case True
    then show ?thesis using Cons.prems sw [of pat "c # cs"] by simp
  next
    case False
    then show ?thesis using Cons by (auto split: if_splits)
  qed
qed

lemma find_str_bounds:
  assumes "find_str s pat pos \<noteq> npos"
  shows "pos \<le> find_str s pat pos \<and> find_str s pat pos + length pat \<le> length s"
proof -
  from assms obtain i where i: "first_occurrence pat (drop pos s) = Some i"
    and f: "find_str s pat pos = pos + i" and l: "pos \<le> length s"
    by (auto simp: find_str_def split: if_splits option.splits)
  from first_occurrence_bound [OF i] l f show ?thesis by simp
qed

text \<open>
  \<open>operator<<(const string&)\<close>: the loop over the newline characters of \<open>s\<close>, entered
  at offset \<open>off\<close>.
\<close>

function stream_from :: "string \<Rightarrow> nat \<Rightarrow> CodeGenerator \<Rightarrow> error + CodeGenerator" where
  "stream_from s off g =
     (let pos = find_str s endl off in
      if pos = npos then print_formatted (substr s off npos) g
      else case print_formatted (substr s off (pos - off)) g of
             Inl e \<Rightarrow> Inl e
           | Inr g1 \<Rightarrow> stream_from s (pos + 1) (g1\<lparr>buffer := buffer g1 @ endl, newline := True\<rparr>))"
  by pat_completeness auto
termination
proof (relation "measure (\<lambda>(s, off, g). Suc (length s) - off)")
  show "wf (measure (\<lambda>(s, off, g). Suc (length s) - off))" by simp
next
  fix s :: string and off :: nat and g x x2
  assume "x = find_str s endl off" and "x \<noteq> npos"
  then have "off \<le> x \<and> x + length endl \<le> length s"
    using find_str_bounds [of s endl off] by simp
  then show "((s, x + 1, x2\<lparr>buffer := buffer x2 @ endl, newline := True\<rparr>), s, off, g)
             \<in> measure (\<lambda>(s, off, g). Suc (length s) - off)"
    by (auto simp: endl_def)
qed

declare stream_from.simps [simp del]

definition stream_out :: "string \<Rightarrow> CodeGenerator \<Rightarrow> error + CodeGenerator" where
  "stream_out s g = stream_from s 0 g"

text \<open>A chain \<open>*this << a << b << ...\<close>; the first failure ends it.\<close>

fun stream_all :: "string list \<Rightarrow> CodeGenerator \<Rightarrow> error + CodeGenerator" where
  "stream_all [] g = Inr g"
| "stream_all (s # ss) g = (case stream_out s g of Inl e \<Rightarrow> Inl e | Inr g1 \<Rightarrow> stream_all ss g1)"

text \<open>\<open>flush(this->body)\<close>.\<close>

definition flush_body :: "CodeGenerator \<Rightarrow> CodeGenerator" where
  "flush_body g = g\<lparr>body := body g @ buffer g, buffer := []\<rparr>"






subsection \<open>Template specialization\<close>

text \<open>
  \<open>std::getline\<close> in a loop: the lines of a text, a last line without a newline included,
  no empty line after a final newline.
\<close>

function getlines :: "string \<Rightarrow> string list" where
  "getlines s =
     (if s = [] then []
      else takeWhile (\<lambda>c. c \<noteq> CHR 0x0A) s # getlines (drop 1 (dropWhile (\<lambda>c. c \<noteq> CHR 0x0A) s)))"
  by pat_completeness auto
termination
proof (relation "measure length")
  show "wf (measure length)" by simp
next
  fix s :: string
  assume "s \<noteq> []"
  moreover have "length (dropWhile (\<lambda>c. c \<noteq> CHR 0x0A) s) \<le> length s"
    by (rule length_dropWhile_le)
  ultimately show "(drop 1 (dropWhile (\<lambda>c. c \<noteq> CHR 0x0A) s), s) \<in> measure length"
    by (cases s) auto
qed

declare getlines.simps [simp del]

text \<open>
  The suffix: the loop over \<open>inst\<close> that stops at the first type other than
  \<open>casadi_real\<close>, and then chains all of \<open>inst\<close>.
\<close>

fun suffix_loop :: "string list \<Rightarrow> string list \<Rightarrow> string" where
  "suffix_loop [] inst = []"
| "suffix_loop (s # ss) inst =
     (if s \<noteq> ''casadi_real'' then concat (map (\<lambda>t. ''_'' @ t) inst) else suffix_loop ss inst)"

definition inst_suffix :: "string list \<Rightarrow> string" where
  "inst_suffix inst = suffix_loop inst inst"

text \<open>The initial replacements \<open>T1\<close>, \<open>T2\<close>, ... by the types of \<open>inst\<close>.\<close>

definition initial_rep :: "string list \<Rightarrow> (string \<times> string) list" where
  "initial_rep inst = map (\<lambda>i. (''T'' @ str_nat (i + 1), inst ! i)) [0..<length inst]"

text \<open>
  The inner \<open>while\<close> loop of the replacement: every occurrence of \<open>key\<close> from position \<open>n\<close>
  on is replaced by \<open>sub\<close>, the search going on behind the replacement. The loop need
  not end (an empty \<open>key\<close> with an empty \<open>sub\<close> makes no progress), so the function is
  partial: \<open>None\<close> when it does not return.
\<close>

partial_function (option) replace_from :: "string \<Rightarrow> string \<Rightarrow> string \<Rightarrow> nat \<Rightarrow> string option" where
  "replace_from key sub line n =
     (let m = find_str line key n in
      if m = npos then Some line
      else replace_from key sub (replace_str line m (length key) sub) (m + length sub))"

text \<open>The replacements applied in the order given (the source walks \<open>rep\<close> backwards).\<close>

fun replace_all :: "(string \<times> string) list \<Rightarrow> string \<Rightarrow> string option" where
  "replace_all [] line = Some line"
| "replace_all (r # rs) line =
     (case replace_from (fst r) (snd r) line 0 of None \<Rightarrow> None | Some l \<Rightarrow> replace_all rs l)"

text \<open>
  The registering overload \<open>shorthand(name, allow_adding)\<close>: the insertion comes first, so
  the generator is returned with the result. Modelled from the spec: the default of
  \<open>allow_adding\<close> is in the header; every call in the sources passes the name alone on a
  generator it then writes to, and reserving must succeed for a new name, so the default
  is true.
\<close>

definition shorthand_reg :: "string \<Rightarrow> bool \<Rightarrow> CodeGenerator \<Rightarrow> (error + string) \<times> CodeGenerator" where
  "shorthand_reg name allow_adding g =
     (let added = (name \<notin> added_shorthands g);
          g1 = g\<lparr>added_shorthands := insert name (added_shorthands g)\<rparr>
      in if \<not> allow_adding \<and> \<not> added then (Inl (CasadiException (''Duplicate macro: '' @ name)), g1)
         else (Inr (''casadi_'' @ name), g1))"

text \<open>The text between the first two double quotes at or after \<open>from\<close>, with the positions.\<close>

definition quoted :: "string \<Rightarrow> nat \<Rightarrow> string \<times> nat" where
  "quoted line from =
     (let n1 = find_str line [CHR 0x22] from;
          n2 = find_str line [CHR 0x22] (sz_plus n1 1)
      in (substr line (sz_plus n1 1) (sz_minus (sz_minus n2 n1) 1), n2))"

text \<open>
  The body of the loop over the lines of the template, on the replacements \<open>rep\<close>, the
  text \<open>ret\<close> collected so far and the generator.
\<close>

definition sanitize_line ::
  "bool \<Rightarrow> string \<Rightarrow> string \<Rightarrow> (string \<times> string) list \<times> string \<times> CodeGenerator
    \<Rightarrow> ((string \<times> string) list \<times> string \<times> CodeGenerator) option" where
  "sanitize_line add_shorthand suffix line st =
     (case st of (rep, ret, g) \<Rightarrow>
      if find_str line ''template'' 0 = 0 then Some st
      else if find_str line ''#define'' 0 = 0 then Some st
      else if find_str line ''#undef'' 0 = 0 then Some st
      else if line = ''inline'' then Some st
      else if find_str line ''// SYMBOL'' 0 = 0 then
        (let sym = fst (quoted line 0);
             g1 = (if add_shorthand then snd (shorthand_reg (sym @ suffix) True g) else g);
             rep1 = (if suffix \<noteq> [] then rep @ [(sym, sym @ suffix)] else rep)
         in Some (rep1, ret, g1))
      else if find_str line ''// C-REPLACE'' 0 = 0 then
        (let key = quoted line 0;
             sub = quoted line (sz_plus (snd key) 1)
         in Some (rep @ [(fst key, fst sub)], ret, g))
      else
        (let n1 = find_str line ''//'' 0;
             line1 = (if n1 \<noteq> npos then erase_from line n1 else line);
             n2 = find_last_not_of line1 CHR '' ''
         in if n2 = npos then Some st
            else case replace_all (rev rep) (erase_from line1 (sz_plus n2 1)) of
                   None \<Rightarrow> None
                 | Some line2 \<Rightarrow> Some (rep, ret @ line2 @ endl, g)))"

fun sanitize_lines ::
  "bool \<Rightarrow> string \<Rightarrow> string list \<Rightarrow> (string \<times> string) list \<times> string \<times> CodeGenerator
    \<Rightarrow> ((string \<times> string) list \<times> string \<times> CodeGenerator) option" where
  "sanitize_lines add_shorthand suffix [] st = Some st"
| "sanitize_lines add_shorthand suffix (line # lines) st =
     (case sanitize_line add_shorthand suffix line st of
        None \<Rightarrow> None
      | Some st1 \<Rightarrow> sanitize_lines add_shorthand suffix lines st1)"

definition sanitize_source ::
  "string \<Rightarrow> string list \<Rightarrow> bool \<Rightarrow> CodeGenerator \<Rightarrow> (string \<times> CodeGenerator) option" where
  "sanitize_source src inst add_shorthand g =
     (case sanitize_lines add_shorthand (inst_suffix inst) (getlines src) (initial_rep inst, [], g) of
        None \<Rightarrow> None
      | Some (rep, ret, g1) \<Rightarrow> Some (ret @ endl, g1))"

subsection \<open>Auxiliary functions\<close>

text \<open>
  The templates \<open>casadi_copy_str\<close>, \<open>casadi_swap_str\<close>, ... come from a generated header
  that is not among the sources: \<open>add_auxiliary\<close> takes them as the parameter \<open>tmpl\<close>, the
  template of each kind.

  Modelled from the spec: the default arguments are declared in the class header. The spec
  has a default numeric type, which \<open>sanitize_source\<close> spells \<open>casadi_real\<close>: a call
  \<open>add_auxiliary(f)\<close> asks for the instantiation \<open>{"casadi_real"}\<close>, and a call
  \<open>sanitize_source(src, inst)\<close> registers the shorthands.
\<close>

definition default_inst :: "string list" where
  "default_inst = [''casadi_real'']"

text \<open>\<open>this->auxiliaries << sanitize_source(src, inst)\<close>.\<close>

definition emit_auxiliary :: "string \<Rightarrow> string list \<Rightarrow> CodeGenerator \<Rightarrow> CodeGenerator option" where
  "emit_auxiliary src inst g =
     (case sanitize_source src inst True g of
        None \<Rightarrow> None
      | Some (text, g1) \<Rightarrow> Some (g1\<lparr>auxiliaries := auxiliaries g1 @ text\<rparr>))"

text \<open>The same between \<open>#ifdef MATLAB_MEX_FILE\<close> and \<open>#endif\<close>.\<close>

definition emit_auxiliary_mex :: "string \<Rightarrow> string list \<Rightarrow> CodeGenerator \<Rightarrow> CodeGenerator option" where
  "emit_auxiliary_mex src inst g =
     (case sanitize_source src inst True g of
        None \<Rightarrow> None
      | Some (text, g1) \<Rightarrow>
          Some (g1\<lparr>auxiliaries := auxiliaries g1 @ ''#ifdef MATLAB_MEX_FILE'' @ endl @ text
                        @ ''#endif'' @ endl @ endl\<rparr>))"

text \<open>How deep the requests of a kind for other kinds go.\<close>

fun aux_rank :: "Auxiliary \<Rightarrow> nat" where
  "aux_rank AUX_INTERPN_GRAD = 3"
| "aux_rank AUX_INTERPN = 2"
| "aux_rank AUX_INTERPN_WEIGHTS = 1"
| "aux_rank AUX_ND_BOOR_EVAL = 1"
| "aux_rank AUX_DENSIFY = 1"
| "aux_rank AUX_FROM_MEX = 1"
| "aux_rank f = 0"

text \<open>
  \<open>add_auxiliary\<close>: the search for the pair among the instantiations on record and the
  registration, then the \<open>switch\<close>. The result is \<open>None\<close> when a replacement loop of
  \<open>sanitize_source\<close> does not end.
\<close>

function add_auxiliary ::
    "(Auxiliary \<Rightarrow> string) \<Rightarrow> Auxiliary \<Rightarrow> string list \<Rightarrow> CodeGenerator \<Rightarrow> CodeGenerator option"
  and add_auxiliary_switch ::
    "(Auxiliary \<Rightarrow> string) \<Rightarrow> Auxiliary \<Rightarrow> string list \<Rightarrow> CodeGenerator \<Rightarrow> CodeGenerator option"
where
  "add_auxiliary tmpl f inst g =
     (if list_ex (\<lambda>it. snd it = inst) (equal_range f (added_auxiliaries g)) then Some g
      else add_auxiliary_switch tmpl f inst
             (g\<lparr>added_auxiliaries := added_auxiliaries g @ [(f, inst)]\<rparr>))"
| "add_auxiliary_switch tmpl AUX_COPY inst g = emit_auxiliary (tmpl AUX_COPY) inst g"
| "add_auxiliary_switch tmpl AUX_SWAP inst g = emit_auxiliary (tmpl AUX_SWAP) inst g"
| "add_auxiliary_switch tmpl AUX_SCAL inst g = emit_auxiliary (tmpl AUX_SCAL) inst g"
| "add_auxiliary_switch tmpl AUX_AXPY inst g = emit_auxiliary (tmpl AUX_AXPY) inst g"
| "add_auxiliary_switch tmpl AUX_DOT inst g = emit_auxiliary (tmpl AUX_DOT) inst g"
| "add_auxiliary_switch tmpl AUX_BILIN inst g = emit_auxiliary (tmpl AUX_BILIN) inst g"
| "add_auxiliary_switch tmpl AUX_RANK1 inst g = emit_auxiliary (tmpl AUX_RANK1) inst g"
| "add_auxiliary_switch tmpl AUX_IAMAX inst g = emit_auxiliary (tmpl AUX_IAMAX) inst g"
| "add_auxiliary_switch tmpl AUX_INTERPN inst g =
     do {
       g1 \<leftarrow> add_auxiliary tmpl AUX_INTERPN_WEIGHTS default_inst g;
       g2 \<leftarrow> add_auxiliary tmpl AUX_INTERPN_INTERPOLATE default_inst g1;
       g3 \<leftarrow> add_auxiliary tmpl AUX_FLIP [] g2;
       g4 \<leftarrow> add_auxiliary tmpl AUX_FILL default_inst g3;
       g5 \<leftarrow> add_auxiliary tmpl AUX_FILL [''int''] g4;
       emit_auxiliary (tmpl AUX_INTERPN) inst g5
     }"
| "add_auxiliary_switch tmpl AUX_INTERPN_GRAD inst g =
     do {
       g1 \<leftarrow> add_auxiliary tmpl AUX_INTERPN default_inst g;
       emit_auxiliary (tmpl AUX_INTERPN_GRAD) inst g1
     }"
| "add_auxiliary_switch tmpl AUX_DE_BOOR inst g = emit_auxiliary (tmpl AUX_DE_BOOR) inst g"
| "add_auxiliary_switch tmpl AUX_ND_BOOR_EVAL inst g =
     do {
       g1 \<leftarrow> add_auxiliary tmpl AUX_DE_BOOR default_inst g;
       g2 \<leftarrow> add_auxiliary tmpl AUX_FILL default_inst g1;
       g3 \<leftarrow> add_auxiliary tmpl AUX_FILL [''int''] g2;
       g4 \<leftarrow> add_auxiliary tmpl AUX_LOW default_inst g3;
       emit_auxiliary (tmpl AUX_ND_BOOR_EVAL) inst g4
     }"
| "add_auxiliary_switch tmpl AUX_FLIP inst g = emit_auxiliary (tmpl AUX_FLIP) inst g"
| "add_auxiliary_switch tmpl AUX_LOW inst g = emit_auxiliary (tmpl AUX_LOW) inst g"
| "add_auxiliary_switch tmpl AUX_INTERPN_WEIGHTS inst g =
     do {
       g1 \<leftarrow> add_auxiliary tmpl AUX_LOW default_inst g;
       emit_auxiliary (tmpl AUX_INTERPN_WEIGHTS) inst g1
     }"
| "add_auxiliary_switch tmpl AUX_INTERPN_INTERPOLATE inst g =
     emit_auxiliary (tmpl AUX_INTERPN_INTERPOLATE) inst g"
| "add_auxiliary_switch tmpl AUX_NORM_1 inst g = emit_auxiliary (tmpl AUX_NORM_1) inst g"
| "add_auxiliary_switch tmpl AUX_NORM_2 inst g = emit_auxiliary (tmpl AUX_NORM_2) inst g"
| "add_auxiliary_switch tmpl AUX_NORM_INF inst g = emit_auxiliary (tmpl AUX_NORM_INF) inst g"
| "add_auxiliary_switch tmpl AUX_FILL inst g = emit_auxiliary (tmpl AUX_FILL) inst g"
| "add_auxiliary_switch tmpl AUX_MV inst g = emit_auxiliary (tmpl AUX_MV) inst g"
| "add_auxiliary_switch tmpl AUX_MV_DENSE inst g = emit_auxiliary (tmpl AUX_MV_DENSE) inst g"
| "add_auxiliary_switch tmpl AUX_MTIMES inst g = emit_auxiliary (tmpl AUX_MTIMES) inst g"
| "add_auxiliary_switch tmpl AUX_PROJECT inst g = emit_auxiliary (tmpl AUX_PROJECT) inst g"
| "add_auxiliary_switch tmpl AUX_DENSIFY inst g =
     do {
       g1 \<leftarrow> add_auxiliary tmpl AUX_FILL default_inst g;
       emit_auxiliary (tmpl AUX_DENSIFY) (if length inst = 1 then inst @ [inst ! 0] else inst) g1
     }"
| "add_auxiliary_switch tmpl AUX_TRANS inst g = emit_auxiliary (tmpl AUX_TRANS) inst g"
| "add_auxiliary_switch tmpl AUX_TO_MEX inst g = emit_auxiliary_mex (tmpl AUX_TO_MEX) inst g"
| "add_auxiliary_switch tmpl AUX_FROM_MEX inst g =
     do {
       g1 \<leftarrow> add_auxiliary tmpl AUX_FILL default_inst g;
       emit_auxiliary_mex (tmpl AUX_FROM_MEX) inst g1
     }"
| "add_auxiliary_switch tmpl AUX_FINITE_DIFF inst g = emit_auxiliary (tmpl AUX_FINITE_DIFF) inst g"
  by pat_completeness auto
termination
  by (relation "measure (\<lambda>x. case x of
        Inl (tmpl, f, inst, g) \<Rightarrow> 2 * aux_rank f + 1
      | Inr (tmpl, f, inst, g) \<Rightarrow> 2 * aux_rank f)") auto

declare add_auxiliary.simps [simp del]

subsection \<open>Registering functions\<close>

text \<open>
  What \<open>add_dependency\<close> reaches through \<open>f->\<close>: the flag \<open>has_refcount_\<close> and the code
  generation callbacks of the function, which write to the generator they are handed and
  may throw. The function classes are not part of the sources: \<open>add_dependency\<close> takes the
  map \<open>deref\<close> from a handle to the node it points to.
\<close>

record FunctionInternal =
  has_refcount :: bool
  codegen_declarations :: "CodeGenerator \<Rightarrow> error + CodeGenerator"
  codegen :: "string \<Rightarrow> CodeGenerator \<Rightarrow> error + CodeGenerator"
  codegen_incref :: "CodeGenerator \<Rightarrow> error + CodeGenerator"
  codegen_decref :: "CodeGenerator \<Rightarrow> error + CodeGenerator"

text \<open>Sequencing of steps that may throw.\<close>

definition and_then :: "error + 'a \<Rightarrow> ('a \<Rightarrow> error + 'b) \<Rightarrow> error + 'b" where
  "and_then r k = (case r of Inl e \<Rightarrow> Inl e | Inr x \<Rightarrow> k x)"

text \<open>The quick return: the name of the first registered entry with the handle \<open>f\<close>.\<close>

fun find_added :: "Function \<Rightarrow> (Function \<times> string) list \<Rightarrow> string option" where
  "find_added f [] = None"
| "find_added f (e # es) = (if fst e = f then Some (snd e) else find_added f es)"

text \<open>The block under \<open>if (f->has_refcount_)\<close>.\<close>

definition codegen_refcount ::
  "FunctionInternal \<Rightarrow> string \<Rightarrow> CodeGenerator \<Rightarrow> error + CodeGenerator" where
  "codegen_refcount node fname g =
     and_then (stream_all [''void '', fname, ''_incref(void) {'' @ endl] g) (\<lambda>g1.
     and_then (codegen_incref node g1) (\<lambda>g2.
     and_then (stream_all [''}'' @ endl @ endl] g2) (\<lambda>g3.
     and_then (stream_all [''void '', fname, ''_decref(void) {'' @ endl] g3) (\<lambda>g4.
     and_then (codegen_decref node g4) (\<lambda>g5.
     stream_all [''}'' @ endl @ endl] g5)))))"

definition add_dependency ::
  "(Function \<Rightarrow> FunctionInternal) \<Rightarrow> Function \<Rightarrow> CodeGenerator
    \<Rightarrow> error + string \<times> CodeGenerator" where
  "add_dependency deref f g =
     (case find_added f (added_functions g) of
        Some codegen_name \<Rightarrow> Inr (codegen_name, g)
      | None \<Rightarrow>
          (case shorthand_reg (''f'' @ str_nat (length (added_functions g))) True g of
             (Inl e, g1) \<Rightarrow> Inl e
           | (Inr fname, g1) \<Rightarrow>
               and_then (codegen_declarations (deref f)
                           (g1\<lparr>added_functions := added_functions g1 @ [(f, fname)]\<rparr>)) (\<lambda>g2.
               and_then (codegen (deref f) fname g2) (\<lambda>g3.
               and_then (if has_refcount (deref f) then codegen_refcount (deref f) fname g3
                         else Inr g3) (\<lambda>g4.
               Inr (fname, flush_body g4))))))"

text \<open>
  A callback keeps the registered functions when the list of added functions it leaves
  begins with the list it found: callbacks work through the operations of the generator,
  none of which removes or rewrites an entry.
\<close>

definition keeps_functions :: "(CodeGenerator \<Rightarrow> error + CodeGenerator) \<Rightarrow> bool" where
  "keeps_functions cb =
     (\<forall>g g'. cb g = Inr g' \<longrightarrow> extends (added_functions g) (added_functions g'))"

definition callbacks_keep :: "FunctionInternal \<Rightarrow> bool" where
  "callbacks_keep node =
     (keeps_functions (codegen_declarations node) \<and> (\<forall>name. keeps_functions (codegen node name))
      \<and> keeps_functions (codegen_incref node) \<and> keeps_functions (codegen_decref node))"

subsection \<open>Rendering a \<open>double\<close> constant\<close>

text \<open>
  The fields of a \<open>double\<close>: the sign bit, the 11 exponent bits, the 52 fraction bits. A
  finite \<open>double\<close> has the magnitude \<open>significand * 2 ^ (exponent_scale - 1075)\<close>.
\<close>

definition sign_bit :: "double \<Rightarrow> bool" where
  "sign_bit d = (d AND 0x8000000000000000 \<noteq> 0)"

definition exponent_field :: "double \<Rightarrow> nat" where
  "exponent_field d = unat (drop_bit 52 d AND 0x7FF)"

definition fraction_field :: "double \<Rightarrow> nat" where
  "fraction_field d = unat (d AND 0x000FFFFFFFFFFFFF)"

definition significand :: "double \<Rightarrow> nat" where
  "significand d = (if exponent_field d = 0 then fraction_field d else 2 ^ 52 + fraction_field d)"

definition exponent_scale :: "double \<Rightarrow> nat" where
  "exponent_scale d = (if exponent_field d = 0 then 1 else exponent_field d)"

text \<open>\<open>isinf(v)\<close>: all exponent bits set, no fraction bit set.\<close>

definition is_inf :: "double \<Rightarrow> bool" where
  "is_inf d = (d AND 0x7FFFFFFFFFFFFFFF = 0x7FF0000000000000)"

text \<open>The magnitude of a finite \<open>double\<close> with the digits behind the point cut off, and
  whether there were none but zeros.\<close>

definition magnitude_trunc :: "double \<Rightarrow> nat" where
  "magnitude_trunc d =
     (if 1075 \<le> exponent_scale d then significand d * 2 ^ (exponent_scale d - 1075)
      else significand d div 2 ^ (1075 - exponent_scale d))"

definition is_integral :: "double \<Rightarrow> bool" where
  "is_integral d =
     (1075 \<le> exponent_scale d \<or> significand d mod 2 ^ (1075 - exponent_scale d) = 0)"

text \<open>
  \<open>int v_int(v)\<close> for a finite \<open>v\<close>: the value truncated towards zero, when that is an
  \<open>int\<close>. When it is not, the language leaves the conversion undefined and the code does
  not guard it; \<open>indefinite v\<close> stands for the \<open>int\<close> the machine then leaves in
  \<open>v_int\<close> (on x86-64 the conversion instruction gives \<open>INT_MIN\<close>).
\<close>

definition truncated :: "double \<Rightarrow> int" where
  "truncated d = (if sign_bit d then - int (magnitude_trunc d) else int (magnitude_trunc d))"

definition fits_int :: "double \<Rightarrow> bool" where
  "fits_int d = (- (2 ^ 31) \<le> truncated d \<and> truncated d \<le> 2 ^ 31 - 1)"

definition to_int :: "(double \<Rightarrow> cint) \<Rightarrow> double \<Rightarrow> int" where
  "to_int indefinite d = (if fits_int d then truncated d else sint (indefinite d))"

definition indefinite_x86 :: "double \<Rightarrow> cint" where
  "indefinite_x86 d = 0x80000000"

text \<open>\<open>v_int==v\<close>: the \<open>int\<close>, converted back without error, equals \<open>v\<close>.\<close>

definition int_equals :: "int \<Rightarrow> double \<Rightarrow> bool" where
  "int_equals n d = (is_integral d \<and> n = truncated d)"

text \<open>\<open>std::numeric_limits<double>::digits10\<close>.\<close>

definition digits10 :: nat where
  "digits10 = 15"

text \<open>
  \<open>constant(double)\<close>. The stream library renders the scientific notation:
  \<open>scientific p v\<close> stands for what \<open>s << std::scientific << std::setprecision(p) << v\<close>
  writes.
\<close>

definition constant_double ::
  "(nat \<Rightarrow> double \<Rightarrow> string) \<Rightarrow> (double \<Rightarrow> cint) \<Rightarrow> double \<Rightarrow> string" where
  "constant_double scientific indefinite v =
     (if is_nan v then ''NAN''
      else if is_inf v then (if sign_bit v then ''-'' else []) @ ''INFINITY''
      else let v_int = to_int indefinite v in
           if int_equals v_int v then str_int v_int @ ''.''
           else scientific (digits10 + 1) v)"

text \<open>For running the model: a stream library that knows how to write 1.5 and
  2147483648.\<close>

definition scientific_sample :: "nat \<Rightarrow> double \<Rightarrow> string" where
  "scientific_sample p v =
     (if p = 16 \<and> v = 0x3FF8000000000000 then ''1.5000000000000000e+00''
      else if p = 16 \<and> v = 0x41E0000000000000 then ''2.1474836480000000e+09''
      else [])"

subsection \<open>Relations between two states of the generator\<close>

text \<open>
  For the proofs: \<open>sanitize_source\<close> writes to nothing but the set of shorthands, and
  \<open>add_auxiliary\<close> only appends to the record of instantiations and to the auxiliary
  section, keeping a record without repetitions so.
\<close>

definition only_shorthands :: "CodeGenerator \<Rightarrow> CodeGenerator \<Rightarrow> bool" where
  "only_shorthands g g' = (\<exists>S. g' = g\<lparr>added_shorthands := S\<rparr>)"

definition aux_grows :: "CodeGenerator \<Rightarrow> CodeGenerator \<Rightarrow> bool" where
  "aux_grows g g' = (extends (added_auxiliaries g) (added_auxiliaries g')
                     \<and> extends (auxiliaries g) (auxiliaries g')
                     \<and> (distinct (added_auxiliaries g) \<longrightarrow> distinct (added_auxiliaries g')))"


text \<open>
  A template none of whose directive lines quotes an empty symbol or key: its replacement
  loops all end.
\<close>

definition template_ok :: "string \<Rightarrow> bool" where
  "template_ok src =
     list_all (\<lambda>l. find_str l ''// SYMBOL'' 0 \<noteq> 0 \<and> find_str l ''// C-REPLACE'' 0 \<noteq> 0
                  \<or> fst (quoted l 0) \<noteq> [])
       (getlines src)"

subsection \<open>Sample templates\<close>

text \<open>
  The templates of the runtime are not among the sources. Two short templates in the
  directive language stand in for \<open>casadi_fill_str\<close> and \<open>casadi_densify_str\<close> where the
  model is run on an input, and every other kind gets a one-line template.
\<close>

definition symbol_fill :: string where
  "symbol_fill = ''// SYMBOL '' @ [CHR 0x22] @ ''fill'' @ [CHR 0x22]"

definition fill_template :: string where
  "fill_template = symbol_fill @ endl
     @ ''template<typename T1>'' @ endl
     @ ''void casadi_fill(T1* x, T1 a) { // set'' @ endl
     @ ''  *x = a;  '' @ endl
     @ ''}'' @ endl"

definition densify_template :: string where
  "densify_template = ''// SYMBOL '' @ [CHR 0x22] @ ''densify'' @ [CHR 0x22] @ endl
     @ ''template<typename T1, typename T2>'' @ endl
     @ ''void casadi_densify(T1* x, T2* y) {'' @ endl
     @ ''  *y = *x;'' @ endl
     @ ''}'' @ endl"

definition sample_templates :: "Auxiliary \<Rightarrow> string" where
  "sample_templates f =
     (if f = AUX_FILL then fill_template
      else if f = AUX_DENSIFY then densify_template
      else ''void f(void);'' @ endl)"

text \<open>
  The generator after \<open>fill\<close> has been requested of a new one, and after \<open>densify\<close> for
  \<open>double\<close> has been.
\<close>

definition fill_text :: string where
  "fill_text = ''void casadi_fill(casadi_real* x, casadi_real a) {'' @ endl
     @ ''  *x = a;'' @ endl @ ''}'' @ endl @ endl"

definition fill_int_text :: string where
  "fill_int_text = ''void casadi_fill_int(int* x, int a) {'' @ endl
     @ ''  *x = a;'' @ endl @ ''}'' @ endl @ endl"

definition densify_text :: string where
  "densify_text = ''void casadi_densify_double_double(double* x, double* y) {'' @ endl
     @ ''  *y = *x;'' @ endl @ ''}'' @ endl @ endl"

definition after_fill :: CodeGenerator where
  "after_fill = CodeGenerator_new
     \<lparr>auxiliaries := fill_text,
      added_shorthands := {''fill''},
      added_auxiliaries := [(AUX_FILL, [''casadi_real''])]\<rparr>"

definition after_densify :: CodeGenerator where
  "after_densify = CodeGenerator_new
     \<lparr>auxiliaries := fill_text @ densify_text,
      added_shorthands := {''fill'', ''densify_double_double''},
      added_auxiliaries := [(AUX_DENSIFY, [''double'']), (AUX_FILL, [''casadi_real''])]\<rparr>"

definition after_fill_int :: CodeGenerator where
  "after_fill_int = CodeGenerator_new
     \<lparr>auxiliaries := fill_text @ fill_int_text,
      added_shorthands := {''fill'', ''fill_int''},
      added_auxiliaries := [(AUX_FILL, [''casadi_real'']), (AUX_FILL, [''int''])]\<rparr>"

text \<open>
  Two functions to register: a leaf, and a reference-counted function whose declarations
  register the leaf (handle 8) as a dependency.
\<close>

definition leaf_node :: FunctionInternal where
  "leaf_node =
     \<lparr>has_refcount = False,
      codegen_declarations = Inr,
      codegen = (\<lambda>name. stream_all [''int '', name, ''(void) {'' @ endl, ''return 0;'' @ endl,
                                     ''}'' @ endl @ endl]),
      codegen_incref = Inr,
      codegen_decref = Inr\<rparr>"

definition counted_node :: FunctionInternal where
  "counted_node =
     \<lparr>has_refcount = True,
      codegen_declarations = (\<lambda>g. map_sum id snd (add_dependency (\<lambda>f. leaf_node) 8 g)),
      codegen = (\<lambda>name. stream_all [''int '', name, ''(void) {'' @ endl, ''return 0;'' @ endl,
                                     ''}'' @ endl @ endl]),
      codegen_incref = stream_all [''n++;'' @ endl],
      codegen_decref = stream_all [''n--;'' @ endl]\<rparr>"

definition sample_functions :: "Function \<Rightarrow> FunctionInternal" where
  "sample_functions f = (if f = 7 then counted_node else leaf_node)"

definition after_register :: CodeGenerator where
  "after_register = CodeGenerator_new
     \<lparr>body := ''int casadi_f1(void) {'' @ endl @ ''  return 0;'' @ endl @ ''}'' @ endl @ endl
         @ ''int casadi_f0(void) {'' @ endl @ ''  return 0;'' @ endl @ ''}'' @ endl @ endl
         @ ''void casadi_f0_incref(void) {'' @ endl @ ''  n++;'' @ endl @ ''}'' @ endl @ endl
         @ ''void casadi_f0_decref(void) {'' @ endl @ ''  n--;'' @ endl @ ''}'' @ endl @ endl,
      added_shorthands := {''f0'', ''f1''},
      added_functions := [(7, ''casadi_f0''), (8, ''casadi_f1'')]\<rparr>"

section \<open>Properties of the model\<close>

subsection \<open>The map built by the constructor\<close>

lemma fill_entrymap_past:
  "length es \<le> i \<Longrightarrow> fill_entrymap es i m = m"
  by (simp add: fill_entrymap.simps)

lemma fill_entrymap_step:
  "i < length es \<Longrightarrow>
   fill_entrymap es i m = fill_entrymap es (Suc i) (m(es ! i \<mapsto> int i))"
  by (subst fill_entrymap.simps) simp

lemma fill_entrymap_other:
  "\<forall>j. i \<le> j \<and> j < length es \<longrightarrow> es ! j \<noteq> name \<Longrightarrow>
   fill_entrymap es i m name = m name"
proof (induction es i m rule: fill_entrymap.induct)
  case (1 es i m)
  show ?case
  proof (cases "i < length es")
    case True
    have ne: "es ! i \<noteq> name" using "1.prems" True by auto
    have p: "\<forall>j. Suc i \<le> j \<and> j < length es \<longrightarrow> es ! j \<noteq> name"
      using "1.prems" by auto
    have "fill_entrymap es (Suc i) (m(es ! i \<mapsto> int i)) name
          = (m(es ! i \<mapsto> int i)) name"
      using "1.IH" [OF True p] by (simp add: fun_upd_def)
    then show ?thesis using True ne by (simp add: fill_entrymap_step)
  next
    case False
    then show ?thesis by (simp add: fill_entrymap_past)
  qed
qed

lemma fill_entrymap_distinct:
  "distinct es \<Longrightarrow> i \<le> k \<Longrightarrow> k < length es \<Longrightarrow>
   fill_entrymap es i m (es ! k) = Some (int k)"
proof (induction es i m rule: fill_entrymap.induct)
  case (1 es i m)
  have lt: "i < length es" using "1.prems" by simp
  show ?case
  proof (cases "i = k")
    case True
    have "\<forall>j. Suc i \<le> j \<and> j < length es \<longrightarrow> es ! j \<noteq> es ! k"
      using "1.prems" True by (auto simp: nth_eq_iff_index_eq)
    then have "fill_entrymap es (Suc i) (m(es ! i \<mapsto> int i)) (es ! k)
               = (m(es ! i \<mapsto> int i)) (es ! k)"
      by (rule fill_entrymap_other)
    then show ?thesis using True lt by (simp add: fill_entrymap_step)
  next
    case False
    then have "Suc i \<le> k" using "1.prems" by simp
    then have "fill_entrymap es (Suc i) (m(es ! i \<mapsto> int i)) (es ! k) = Some (int k)"
      using "1.IH" [OF lt "1.prems"(1) _ "1.prems"(3)] by (simp add: fun_upd_def)
    then show ?thesis using lt by (simp add: fill_entrymap_step)
  qed
qed

subsection \<open>The constant pools\<close>

lemma equal_range_append:
  "equal_range h (ix @ ix') = equal_range h ix @ equal_range h ix'"
  by (simp add: equal_range_def)

lemma index_ok_append:
  "index_ok cs (ix @ ix') = (index_ok cs ix \<and> index_ok cs ix')"
  by (simp add: index_ok_def)

lemma index_ok_equal_range:
  "index_ok cs ix \<Longrightarrow> index_ok cs (equal_range h ix)"
  by (auto simp: index_ok_def equal_range_def list_all_iff)

lemma index_ok_grow:
  "index_ok cs ix \<Longrightarrow> index_ok (cs @ cs') ix"
  by (auto simp: index_ok_def list_all_iff)

lemma scan_range_grow:
  "index_ok cs es \<Longrightarrow> scan_range eqv v (cs @ cs') es = scan_range eqv v cs es"
  by (induction es) (auto simp: index_ok_def nth_append)

lemma scan_range_append:
  "scan_range eqv v cs (es @ es') =
     (case scan_range eqv v cs es of Some i \<Rightarrow> Some i | None \<Rightarrow> scan_range eqv v cs es')"
  by (induction es) auto

lemma scan_range_Some:
  "scan_range eqv v cs es = Some i \<Longrightarrow> eqv v (cs ! i) \<and> i \<in> snd ` set es"
  by (induction es) (auto split: if_splits)

lemma scan_range_None:
  "scan_range eqv v cs es = None \<Longrightarrow> e \<in> set es \<Longrightarrow> \<not> eqv v (cs ! snd e)"
  by (induction es) (auto split: if_splits)

lemma scan_range_stable:
  assumes "scan_range eqv v cs (equal_range h ix) = Some i" and "index_ok cs ix"
  shows "scan_range eqv v (cs @ cs') (equal_range h (ix @ ix')) = Some i"
proof -
  have "index_ok (cs @ cs') (equal_range h ix)"
    using assms(2) by (simp add: index_ok_equal_range index_ok_grow)
  have "scan_range eqv v (cs @ cs') (equal_range h ix) = Some i"
    using assms by (simp add: scan_range_grow index_ok_equal_range)
  then show ?thesis by (simp add: equal_range_append scan_range_append)
qed


lemma extends_refl: "extends xs xs"
  by (simp add: extends_def)

lemma extends_trans: "extends xs ys \<Longrightarrow> extends ys zs \<Longrightarrow> extends xs zs"
  by (auto simp: extends_def)

lemma extends_snoc: "extends xs (xs @ ys)"
  by (simp add: extends_def)

lemma grows_refl: "grows g g"
  by (simp add: grows_def extends_refl)

lemma grows_trans: "grows g g' \<Longrightarrow> grows g' g'' \<Longrightarrow> grows g g''"
  unfolding grows_def by (blast intro: extends_trans)

lemma index_ok_snoc:
  "index_ok cs ix \<Longrightarrow> index_ok (cs @ [v]) (ix @ [(h, length cs)])"
  by (auto simp: index_ok_def list_all_iff)

lemma get_constant_double_cases:
  assumes "get_constant_double hc v a g = (r, g')"
  obtains (found) i where
      "scan_range (equal_vec double_eq) v (double_constants g)
         (equal_range (hash_double hc v) (added_double_constants g)) = Some i"
      "r = Inr i" "g' = g"
  | (added)
      "scan_range (equal_vec double_eq) v (double_constants g)
         (equal_range (hash_double hc v) (added_double_constants g)) = None"
      "a" "r = Inr (length (double_constants g))"
      "g' = g\<lparr>double_constants := double_constants g @ [v],
               added_double_constants := added_double_constants g
                  @ [(hash_double hc v, length (double_constants g))]\<rparr>"
  | (missing)
      "scan_range (equal_vec double_eq) v (double_constants g)
         (equal_range (hash_double hc v) (added_double_constants g)) = None"
      "\<not> a" "r = Inl (CasadiException ''Constant not found'')" "g' = g"
  using assms unfolding get_constant_double_def Let_def
  by (auto split: option.splits if_splits)

lemma get_constant_int_cases:
  assumes "get_constant_int hcv v a g = (r, g')"
  obtains (found) i where
      "scan_range (equal_vec (=)) v (integer_constants g)
         (equal_range (hash_int hcv v) (added_integer_constants g)) = Some i"
      "r = Inr i" "g' = g"
  | (added)
      "scan_range (equal_vec (=)) v (integer_constants g)
         (equal_range (hash_int hcv v) (added_integer_constants g)) = None"
      "a" "r = Inr (length (integer_constants g))"
      "g' = g\<lparr>integer_constants := integer_constants g @ [v],
               added_integer_constants := added_integer_constants g
                  @ [(hash_int hcv v, length (integer_constants g))]\<rparr>"
  | (missing)
      "scan_range (equal_vec (=)) v (integer_constants g)
         (equal_range (hash_int hcv v) (added_integer_constants g)) = None"
      "\<not> a" "r = Inl (CasadiException ''Constant not found'')" "g' = g"
  using assms unfolding get_constant_int_def Let_def
  by (auto split: option.splits if_splits)

lemma get_constant_double_grows:
  assumes "pools_ok g"
  shows "grows g (snd (get_constant_double hc v a g)) \<and> pools_ok (snd (get_constant_double hc v a g))"
proof -
  obtain r g' where e: "get_constant_double hc v a g = (r, g')" by (cases "get_constant_double hc v a g")
  from e show ?thesis
  proof (cases rule: get_constant_double_cases)
    case (found i)
    then show ?thesis using assms e by (simp add: grows_refl)
  next
    case added
    then show ?thesis using assms e
      by (simp add: grows_def extends_refl extends_snoc pools_ok_def index_ok_snoc)
  next
    case missing
    then show ?thesis using assms e by (simp add: grows_refl)
  qed
qed

lemma get_constant_int_grows:
  assumes "pools_ok g"
  shows "grows g (snd (get_constant_int hcv v a g)) \<and> pools_ok (snd (get_constant_int hcv v a g))"
proof -
  obtain r g' where e: "get_constant_int hcv v a g = (r, g')" by (cases "get_constant_int hcv v a g")
  from e show ?thesis
  proof (cases rule: get_constant_int_cases)
    case (found i)
    then show ?thesis using assms e by (simp add: grows_refl)
  next
    case added
    then show ?thesis using assms e
      by (simp add: grows_def extends_refl extends_snoc pools_ok_def index_ok_snoc)
  next
    case missing
    then show ?thesis using assms e by (simp add: grows_refl)
  qed
qed

lemma serve_grows:
  "pools_ok g \<Longrightarrow> grows g (serve hc hcv r g) \<and> pools_ok (serve hc hcv r g)"
  by (cases r) (simp_all add: get_constant_double_grows get_constant_int_grows)

lemma serve_all_grows:
  "pools_ok g \<Longrightarrow> grows g (serve_all hc hcv rs g) \<and> pools_ok (serve_all hc hcv rs g)"
proof (induction rs arbitrary: g)
  case Nil
  then show ?case by (simp add: serve_all_def grows_refl)
next
  case (Cons r rs)
  have s: "grows g (serve hc hcv r g) \<and> pools_ok (serve hc hcv r g)"
    using Cons.prems by (rule serve_grows)
  then have "grows (serve hc hcv r g) (serve_all hc hcv rs (serve hc hcv r g))
             \<and> pools_ok (serve_all hc hcv rs (serve hc hcv r g))"
    using Cons.IH by blast
  then show ?case using s by (auto simp: serve_all_def intro: grows_trans)
qed


lemma double_eq_sym: "double_eq a b \<Longrightarrow> double_eq b a"
  by (auto simp: double_eq_def)

lemma double_eq_trans: "double_eq a b \<Longrightarrow> double_eq b c \<Longrightarrow> double_eq a c"
  by (auto simp: double_eq_def)

lemma double_eq_refl: "\<not> is_nan a \<Longrightarrow> double_eq a a"
  by (simp add: double_eq_def)

lemma equal_vec_sym:
  "(\<And>a b. eq a b \<Longrightarrow> eq b a) \<Longrightarrow> equal_vec eq v w \<Longrightarrow> equal_vec eq w v"
  by (auto simp: equal_vec_def list_all2_conv_all_nth split: if_splits)

lemma equal_vec_trans:
  "(\<And>a b c. eq a b \<Longrightarrow> eq b c \<Longrightarrow> eq a c) \<Longrightarrow> equal_vec eq u v \<Longrightarrow> equal_vec eq v w
   \<Longrightarrow> equal_vec eq u w"
  by (auto simp: equal_vec_def list_all2_conv_all_nth split: if_splits)

lemma equal_vec_refl:
  "(\<And>a. a \<in> set v \<Longrightarrow> eq a a) \<Longrightarrow> equal_vec eq v v"
  by (auto simp: equal_vec_def list_all2_conv_all_nth)

lemma equal_vec_eq: "equal_vec (=) v w = (v = w)"
  by (auto simp: equal_vec_def list_all2_eq [symmetric])

lemma scan_after_add:
  assumes "index_ok cs ix" and "scan_range eqv v cs (equal_range h ix) = None" and "eqv v v"
  shows "scan_range eqv v (cs @ [v]) (equal_range h (ix @ [(h, length cs)])) = Some (length cs)"
proof -
  have "scan_range eqv v (cs @ [v]) (equal_range h ix) = None"
    using assms(1,2) by (simp add: scan_range_grow index_ok_equal_range)
  moreover have "equal_range h [(h, length cs)] = [(h, length cs)]"
    by (simp add: equal_range_def)
  ultimately show ?thesis using assms(3)
    by (simp add: equal_range_append scan_range_append)
qed

lemma scan_in_range:
  "index_ok cs ix \<Longrightarrow> scan_range eqv v cs (equal_range h ix) = Some i \<Longrightarrow> i < length cs"
  by (auto dest!: scan_range_Some simp: index_ok_def list_all_iff equal_range_def)

text \<open>What interning leaves behind: the id is in range, and holds the payload or an equal one.\<close>

lemma interned_double:
  assumes "pools_ok g" and "get_constant_double hc v True g = (r, g1)"
  shows "\<exists>i. r = Inr i \<and> i < length (double_constants g1)
           \<and> (double_constants g1 ! i = v \<or> equal_vec double_eq v (double_constants g1 ! i))
           \<and> (equal_vec double_eq v v \<longrightarrow>
                scan_range (equal_vec double_eq) v (double_constants g1)
                  (equal_range (hash_double hc v) (added_double_constants g1)) = Some i)"
  using assms(2)
proof (cases rule: get_constant_double_cases)
  case (found i)
  then show ?thesis using assms(1)
    by (auto simp: pools_ok_def dest: scan_in_range scan_range_Some)
next
  case added
  then show ?thesis using assms(1) by (simp add: pools_ok_def scan_after_add)
next
  case missing
  then show ?thesis by simp
qed

lemma interned_int:
  assumes "pools_ok g" and "get_constant_int hcv v True g = (r, g1)"
  shows "\<exists>i. r = Inr i \<and> i < length (integer_constants g1)
           \<and> integer_constants g1 ! i = v
           \<and> scan_range (equal_vec (=)) v (integer_constants g1)
                  (equal_range (hash_int hcv v) (added_integer_constants g1)) = Some i"
  using assms(2)
proof (cases rule: get_constant_int_cases)
  case (found i)
  then show ?thesis using assms(1)
    by (auto simp: pools_ok_def equal_vec_eq dest: scan_in_range scan_range_Some)
next
  case added
  then show ?thesis using assms(1) by (simp add: pools_ok_def scan_after_add equal_vec_eq)
next
  case missing
  then show ?thesis by simp
qed

lemma found_stays_double:
  assumes "pools_ok g1" and "grows g1 g2"
    and "scan_range eqv v (double_constants g1) (equal_range h (added_double_constants g1)) = Some i"
  shows "scan_range eqv v (double_constants g2) (equal_range h (added_double_constants g2)) = Some i"
  using assms by (auto simp: grows_def extends_def pools_ok_def scan_range_stable)

lemma found_stays_int:
  assumes "pools_ok g1" and "grows g1 g2"
    and "scan_range eqv v (integer_constants g1) (equal_range h (added_integer_constants g1)) = Some i"
  shows "scan_range eqv v (integer_constants g2) (equal_range h (added_integer_constants g2)) = Some i"
  using assms by (auto simp: grows_def extends_def pools_ok_def scan_range_stable)

lemma grows_nth_double:
  "grows g1 g2 \<Longrightarrow> i < length (double_constants g1) \<Longrightarrow>
   double_constants g2 ! i = double_constants g1 ! i \<and> length (double_constants g1) \<le> length (double_constants g2)"
  by (auto simp: grows_def extends_def nth_append)

lemma grows_nth_int:
  "grows g1 g2 \<Longrightarrow> i < length (integer_constants g1) \<Longrightarrow>
   integer_constants g2 ! i = integer_constants g1 ! i \<and> length (integer_constants g1) \<le> length (integer_constants g2)"
  by (auto simp: grows_def extends_def nth_append)


lemma scan_range_cong_eqv:
  "(\<And>c. eqv v c = eqv v' c) \<Longrightarrow> scan_range eqv v cs es = scan_range eqv v' cs es"
  by (induction es) auto

lemma equal_vec_double_per:
  assumes "equal_vec double_eq v v'"
  shows "equal_vec double_eq v v" and "equal_vec double_eq v c = equal_vec double_eq v' c"
proof -
  have s: "equal_vec double_eq v' v"
    using assms by (rule equal_vec_sym [rotated]) (rule double_eq_sym)
  show "equal_vec double_eq v v"
    using assms s by (rule equal_vec_trans [rotated]) (rule double_eq_trans)
  show "equal_vec double_eq v c = equal_vec double_eq v' c"
  proof
    assume "equal_vec double_eq v c"
    with s show "equal_vec double_eq v' c"
      by (rule equal_vec_trans [rotated]) (rule double_eq_trans)
  next
    assume "equal_vec double_eq v' c"
    with assms show "equal_vec double_eq v c"
      by (rule equal_vec_trans [rotated]) (rule double_eq_trans)
  qed
qed

lemma found_returns_double:
  "scan_range (equal_vec double_eq) v (double_constants g)
     (equal_range (hash_double hc v) (added_double_constants g)) = Some i
   \<Longrightarrow> get_constant_double hc v a g = (Inr i, g)"
  by (simp add: get_constant_double_def)

lemma found_returns_int:
  "scan_range (equal_vec (=)) v (integer_constants g)
     (equal_range (hash_int hcv v) (added_integer_constants g)) = Some i
   \<Longrightarrow> get_constant_int hcv v a g = (Inr i, g)"
  by (simp add: get_constant_int_def)

lemma same_id_double:
  assumes ok: "pools_ok g" and eq: "equal_vec double_eq v v'"
    and h: "hash_double hc v = hash_double hc v'"
  shows "\<exists>i. fst (get_constant_double hc v True g) = Inr i
           \<and> get_constant_double hc v' a (serve_all hc hcv rs (snd (get_constant_double hc v True g)))
               = (Inr i, serve_all hc hcv rs (snd (get_constant_double hc v True g)))"
proof -
  obtain r g1 where e: "get_constant_double hc v True g = (r, g1)"
    by (cases "get_constant_double hc v True g")
  have ok1: "pools_ok g1" using get_constant_double_grows [OF ok, of hc v True] e by simp
  obtain i where i: "r = Inr i"
    "scan_range (equal_vec double_eq) v (double_constants g1)
       (equal_range (hash_double hc v) (added_double_constants g1)) = Some i"
    using interned_double [OF ok e] equal_vec_double_per(1) [OF eq] by blast
  have "scan_range (equal_vec double_eq) v (double_constants (serve_all hc hcv rs g1))
       (equal_range (hash_double hc v) (added_double_constants (serve_all hc hcv rs g1))) = Some i"
    using ok1 serve_all_grows [OF ok1, of hc hcv rs] i(2) by (blast intro: found_stays_double)
  then have "scan_range (equal_vec double_eq) v' (double_constants (serve_all hc hcv rs g1))
       (equal_range (hash_double hc v') (added_double_constants (serve_all hc hcv rs g1))) = Some i"
    using scan_range_cong_eqv [of "equal_vec double_eq" v v', OF equal_vec_double_per(2) [OF eq]] h
    by simp
  then show ?thesis using e i(1) by (simp add: found_returns_double)
qed

lemma same_id_int:
  assumes ok: "pools_ok g"
  shows "\<exists>i. fst (get_constant_int hcv v True g) = Inr i
           \<and> get_constant_int hcv v a (serve_all hc hcv rs (snd (get_constant_int hcv v True g)))
               = (Inr i, serve_all hc hcv rs (snd (get_constant_int hcv v True g)))"
proof -
  obtain r g1 where e: "get_constant_int hcv v True g = (r, g1)"
    by (cases "get_constant_int hcv v True g")
  have ok1: "pools_ok g1" using get_constant_int_grows [OF ok, of hcv v True] e by simp
  obtain i where i: "r = Inr i"
    "scan_range (equal_vec (=)) v (integer_constants g1)
       (equal_range (hash_int hcv v) (added_integer_constants g1)) = Some i"
    using interned_int [OF ok e] by blast
  have "scan_range (equal_vec (=)) v (integer_constants (serve_all hc hcv rs g1))
       (equal_range (hash_int hcv v) (added_integer_constants (serve_all hc hcv rs g1))) = Some i"
    using ok1 serve_all_grows [OF ok1, of hc hcv rs] i(2) by (blast intro: found_stays_int)
  then show ?thesis using e i(1) by (simp add: found_returns_int)
qed

lemma distinct_ids_double:
  assumes ok: "pools_ok g" and ne: "\<not> equal_vec double_eq v v'"
  shows "fst (get_constant_double hc v' True (serve_all hc hcv rs (snd (get_constant_double hc v True g))))
           \<noteq> fst (get_constant_double hc v True g)"
proof -
  obtain r g1 where e: "get_constant_double hc v True g = (r, g1)"
    by (cases "get_constant_double hc v True g")
  define g2 where "g2 = serve_all hc hcv rs g1"
  obtain r' g3 where e': "get_constant_double hc v' True g2 = (r', g3)"
    by (cases "get_constant_double hc v' True g2")
  have ok1: "pools_ok g1" using get_constant_double_grows [OF ok, of hc v True] e by simp
  have gr: "grows g1 g2" and ok2: "pools_ok g2"
    using serve_all_grows [OF ok1, of hc hcv rs] by (simp_all add: g2_def)
  obtain i where i: "r = Inr i" "i < length (double_constants g1)"
    "double_constants g1 ! i = v \<or> equal_vec double_eq v (double_constants g1 ! i)"
    using interned_double [OF ok e] by blast
  have nth: "double_constants g2 ! i = double_constants g1 ! i"
    and len: "length (double_constants g1) \<le> length (double_constants g2)"
    using grows_nth_double [OF gr i(2)] by simp_all
  have "r' \<noteq> Inr i"
    using e'
  proof (cases rule: get_constant_double_cases)
    case (found j)
    have m: "equal_vec double_eq v' (double_constants g2 ! j)"
      using scan_range_Some [OF found(1)] by simp
    show ?thesis
    proof
      assume "r' = Inr i"
      then have ji: "j = i" using found(2) by simp
      from i(3) have "equal_vec double_eq v v'"
      proof
        assume "double_constants g1 ! i = v"
        then have "equal_vec double_eq v' v" using m ji nth by simp
        then show ?thesis by (rule equal_vec_sym [rotated]) (rule double_eq_sym)
      next
        assume a: "equal_vec double_eq v (double_constants g1 ! i)"
        have "equal_vec double_eq (double_constants g1 ! i) v'"
          using m ji nth equal_vec_sym [of double_eq v' "double_constants g1 ! i"] double_eq_sym
          by auto
        with a show ?thesis by (rule equal_vec_trans [rotated]) (rule double_eq_trans)
      qed
      then show False using ne by simp
    qed
  next
    case added
    then show ?thesis using i(2) len by simp
  next
    case missing
    then show ?thesis by simp
  qed
  then show ?thesis using e e' i(1) by (simp add: g2_def)
qed

lemma distinct_ids_int:
  assumes ok: "pools_ok g" and ne: "v \<noteq> v'"
  shows "fst (get_constant_int hcv v' True (serve_all hc hcv rs (snd (get_constant_int hcv v True g))))
           \<noteq> fst (get_constant_int hcv v True g)"
proof -
  obtain r g1 where e: "get_constant_int hcv v True g = (r, g1)"
    by (cases "get_constant_int hcv v True g")
  define g2 where "g2 = serve_all hc hcv rs g1"
  obtain r' g3 where e': "get_constant_int hcv v' True g2 = (r', g3)"
    by (cases "get_constant_int hcv v' True g2")
  have ok1: "pools_ok g1" using get_constant_int_grows [OF ok, of hcv v True] e by simp
  have gr: "grows g1 g2" and ok2: "pools_ok g2"
    using serve_all_grows [OF ok1, of hc hcv rs] by (simp_all add: g2_def)
  obtain i where i: "r = Inr i" "i < length (integer_constants g1)"
    "integer_constants g1 ! i = v"
    using interned_int [OF ok e] by blast
  have nth: "integer_constants g2 ! i = integer_constants g1 ! i"
    and len: "length (integer_constants g1) \<le> length (integer_constants g2)"
    using grows_nth_int [OF gr i(2)] by simp_all
  have "r' \<noteq> Inr i"
    using e'
  proof (cases rule: get_constant_int_cases)
    case (found j)
    have "v' = integer_constants g2 ! j"
      using scan_range_Some [OF found(1)] by (simp add: equal_vec_eq)
    then show ?thesis using found(2) nth i(3) ne by auto
  next
    case added
    then show ?thesis using i(2) len by simp
  next
    case missing
    then show ?thesis by simp
  qed
  then show ?thesis using e e' i(1) by (simp add: g2_def)
qed

lemma lookup_fails_double:
  assumes "pools_ok g" and "\<not> (\<exists>c \<in> set (double_constants g). equal_vec double_eq v c)"
  shows "get_constant_double hc v False g = (Inl (CasadiException ''Constant not found''), g)"
proof -
  have "scan_range (equal_vec double_eq) v (double_constants g)
          (equal_range (hash_double hc v) (added_double_constants g)) = None"
  proof (rule ccontr)
    assume "scan_range (equal_vec double_eq) v (double_constants g)
          (equal_range (hash_double hc v) (added_double_constants g)) \<noteq> None"
    then obtain i where s: "scan_range (equal_vec double_eq) v (double_constants g)
          (equal_range (hash_double hc v) (added_double_constants g)) = Some i" by auto
    have "i < length (double_constants g)" using assms(1) s by (auto simp: pools_ok_def dest: scan_in_range)
    then show False using scan_range_Some [OF s] assms(2) by auto
  qed
  then show ?thesis by (simp add: get_constant_double_def Let_def)
qed

lemma lookup_fails_int:
  assumes "pools_ok g" and "\<not> (\<exists>c \<in> set (integer_constants g). equal_vec (=) v c)"
  shows "get_constant_int hcv v False g = (Inl (CasadiException ''Constant not found''), g)"
proof -
  have "scan_range (equal_vec (=)) v (integer_constants g)
          (equal_range (hash_int hcv v) (added_integer_constants g)) = None"
  proof (rule ccontr)
    assume "scan_range (equal_vec (=)) v (integer_constants g)
          (equal_range (hash_int hcv v) (added_integer_constants g)) \<noteq> None"
    then obtain i where s: "scan_range (equal_vec (=)) v (integer_constants g)
          (equal_range (hash_int hcv v) (added_integer_constants g)) = Some i" by auto
    have "i < length (integer_constants g)" using assms(1) s by (auto simp: pools_ok_def dest: scan_in_range)
    then show False using scan_range_Some [OF s] assms(2) by auto
  qed
  then show ?thesis by (simp add: get_constant_int_def)
qed

text \<open>A payload that holds a NaN equals no entry, so interning it always adds an entry.\<close>

lemma equal_vec_nan:
  "x \<in> set v \<Longrightarrow> is_nan x \<Longrightarrow> \<not> equal_vec double_eq v c"
  by (auto simp: equal_vec_def list_all2_conv_all_nth in_set_conv_nth double_eq_def)

lemma scan_range_never:
  "(\<And>c. \<not> eqv v c) \<Longrightarrow> scan_range eqv v cs es = None"
  by (induction es) auto

lemma nan_payload_always_added:
  assumes "x \<in> set v" and "is_nan x"
  shows "fst (get_constant_double hc v True g) = Inr (length (double_constants g))"
proof -
  have "scan_range (equal_vec double_eq) v (double_constants g)
          (equal_range (hash_double hc v) (added_double_constants g)) = None"
    using assms by (intro scan_range_never equal_vec_nan)
  then show ?thesis by (simp add: get_constant_double_def Let_def)
qed

subsection \<open>Formatted output\<close>























lemma print_formatted_negative:
  "newline g \<Longrightarrow> current_indent g < 0 \<Longrightarrow> s \<noteq> [] \<Longrightarrow>
   print_formatted s g = Inl (CasadiException ''current_indent_+shift>=0'')"
  by (simp add: print_formatted_def start_line_def)






subsection \<open>Template specialization\<close>

lemma only_shorthands_refl: "only_shorthands g g"
  unfolding only_shorthands_def by (rule exI [of _ "added_shorthands g"]) simp

lemma only_shorthands_trans:
  "only_shorthands g g' \<Longrightarrow> only_shorthands g' g'' \<Longrightarrow> only_shorthands g g''"
  unfolding only_shorthands_def by auto

lemma shorthand_reg_only: "only_shorthands g (snd (shorthand_reg name a g))"
  by (auto simp: only_shorthands_def shorthand_reg_def Let_def)

lemma sanitize_line_only:
  assumes "sanitize_line b suffix line (rep, ret, g) = Some (rep', ret', g')"
  shows "only_shorthands g g'"
  using assms
  by (auto simp: sanitize_line_def Let_def only_shorthands_refl shorthand_reg_only
        split: if_splits option.splits)

lemma sanitize_lines_only:
  "sanitize_lines b suffix ls (rep, ret, g) = Some (rep', ret', g') \<Longrightarrow> only_shorthands g g'"
proof (induction ls arbitrary: rep ret g)
  case Nil
  then show ?case by (simp add: only_shorthands_refl)
next
  case (Cons l ls)
  from Cons.prems obtain rep1 ret1 g1 where
    a: "sanitize_line b suffix l (rep, ret, g) = Some (rep1, ret1, g1)"
    and r: "sanitize_lines b suffix ls (rep1, ret1, g1) = Some (rep', ret', g')"
    by (auto split: option.splits)
  show ?case using sanitize_line_only [OF a] Cons.IH [OF r] by (rule only_shorthands_trans)
qed

lemma sanitize_source_only:
  assumes "sanitize_source src inst b g = Some (text, g')"
  shows "only_shorthands g g' \<and> text \<noteq> []"
  using assms
  by (auto simp: sanitize_source_def endl_def split: option.splits dest: sanitize_lines_only)


lemma find_str_0_iff: "(find_str line pat 0 = 0) = starts_with pat line"
proof (cases line)
  case Nil
  then show ?thesis by (cases pat) (simp_all add: find_str_def npos_def)
next
  case (Cons c cs)
  then show ?thesis
    by (auto simp: find_str_def npos_def split: option.splits)
qed

lemma symbol_line_excludes:
  assumes "find_str line ''// SYMBOL'' 0 = 0"
  shows "find_str line ''template'' 0 \<noteq> 0" and "find_str line ''#define'' 0 \<noteq> 0"
    and "find_str line ''#undef'' 0 \<noteq> 0" and "line \<noteq> ''inline''"
  using assms by (cases line; simp add: find_str_0_iff)+

lemma sanitize_line_symbol:
  assumes "find_str line ''// SYMBOL'' 0 = 0"
  shows "sanitize_line True suffix line (rep, ret, g)
         = Some (if suffix = [] then rep else rep @ [(fst (quoted line 0), fst (quoted line 0) @ suffix)],
                 ret,
                 g\<lparr>added_shorthands := insert (fst (quoted line 0) @ suffix) (added_shorthands g)\<rparr>)"
  using assms symbol_line_excludes [OF assms]
  by (simp add: sanitize_line_def shorthand_reg_def Let_def)

lemma sanitize_line_other:
  assumes "find_str line ''// SYMBOL'' 0 \<noteq> 0"
    and "sanitize_line b suffix line (rep, ret, g) = Some (rep', ret', g')"
  shows "g' = g"
  using assms by (auto simp: sanitize_line_def Let_def split: if_splits option.splits)

lemma suffix_loop_eq:
  "suffix_loop ss inst
   = (if \<exists>t \<in> set ss. t \<noteq> ''casadi_real'' then concat (map (\<lambda>t. ''_'' @ t) inst) else [])"
proof -
  have e: "(@) ''_'' = (#) CHR ''_''" by (rule ext) simp
  show ?thesis by (induction ss) (simp_all add: e)
qed

lemma inst_suffix_eq:
  "inst_suffix inst
   = (if \<exists>t \<in> set inst. t \<noteq> ''casadi_real'' then concat (map (\<lambda>t. ''_'' @ t) inst) else [])"
  by (simp add: inst_suffix_def suffix_loop_eq)

lemma inst_suffix_nonempty:
  "(inst_suffix inst \<noteq> []) = (\<exists>t \<in> set inst. t \<noteq> ''casadi_real'')"
  by (cases inst) (auto simp: inst_suffix_eq)

lemma sanitize_lines_shorthands:
  "sanitize_lines True suffix ls (rep, ret, g) = Some (rep', ret', g') \<Longrightarrow>
   added_shorthands g' = added_shorthands g
     \<union> (\<lambda>l. fst (quoted l 0) @ suffix) ` {l \<in> set ls. find_str l ''// SYMBOL'' 0 = 0}"
proof (induction ls arbitrary: rep ret g)
  case Nil
  then show ?case by simp
next
  case (Cons l ls)
  from Cons.prems obtain rep1 ret1 g1 where
    a: "sanitize_line True suffix l (rep, ret, g) = Some (rep1, ret1, g1)"
    and r: "sanitize_lines True suffix ls (rep1, ret1, g1) = Some (rep', ret', g')"
    by (auto split: option.splits)
  have g1: "added_shorthands g1
            = (if find_str l ''// SYMBOL'' 0 = 0
               then insert (fst (quoted l 0) @ suffix) (added_shorthands g) else added_shorthands g)"
  proof (cases "find_str l ''// SYMBOL'' 0 = 0")
    case True
    then show ?thesis using a by (auto simp: sanitize_line_symbol)
  next
    case False
    then show ?thesis using sanitize_line_other [OF False a] by simp
  qed
  show ?case using Cons.IH [OF r] g1 by auto
qed

lemma sanitize_source_shorthands:
  assumes "sanitize_source src inst True g = Some (out, g')"
  shows "added_shorthands g' = added_shorthands g
     \<union> (\<lambda>l. fst (quoted l 0) @ inst_suffix inst)
         ` {l \<in> set (getlines src). find_str l ''// SYMBOL'' 0 = 0}"
  using assms
  by (auto simp: sanitize_source_def split: option.splits dest!: sanitize_lines_shorthands)

text \<open>The replacement loop ends for a key that is not empty.\<close>

lemma replace_from_total:
  "key \<noteq> [] \<Longrightarrow> \<exists>r. replace_from key sub line n = Some r"
proof (induction "length line - n" arbitrary: line n rule: less_induct)
  case less
  show ?case
  proof (cases "find_str line key n = npos")
    case True
    then show ?thesis by (subst replace_from.simps) simp
  next
    case False
    define m where "m = find_str line key n"
    have b: "n \<le> m \<and> m + length key \<le> length line"
      using find_str_bounds [OF False] by (simp add: m_def)
    have k: "1 \<le> length key" using less.prems by (cases key) simp_all
    have len: "length (replace_str line m (length key) sub)
               = m + length sub + (length line - (m + length key))"
      using b by (simp add: replace_str_def)
    have "length (replace_str line m (length key) sub) - (m + length sub) < length line - n"
      unfolding len using b k by linarith
    then obtain r where
      "replace_from key sub (replace_str line m (length key) sub) (m + length sub) = Some r"
      using less.hyps less.prems by blast
    then show ?thesis using False by (subst replace_from.simps) (simp add: m_def Let_def)
  qed
qed

lemma replace_all_total:
  "\<forall>r \<in> set rs. fst r \<noteq> [] \<Longrightarrow> \<exists>l. replace_all rs line = Some l"
proof (induction rs arbitrary: line)
  case Nil
  then show ?case by simp
next
  case (Cons r rs)
  then obtain l where "replace_from (fst r) (snd r) line 0 = Some l"
    using replace_from_total [of "fst r" "snd r" line 0] by auto
  then show ?case using Cons by simp
qed

lemma sanitize_line_total:
  assumes "\<forall>r \<in> set rep. fst r \<noteq> []"
    and "find_str l ''// SYMBOL'' 0 \<noteq> 0 \<and> find_str l ''// C-REPLACE'' 0 \<noteq> 0
         \<or> fst (quoted l 0) \<noteq> []"
  shows "\<exists>rep' ret' g'. sanitize_line b suffix l (rep, ret, g) = Some (rep', ret', g')
           \<and> (\<forall>r \<in> set rep'. fst r \<noteq> [])"
proof -
  obtain l2 where "replace_all (rev rep)
      (erase_from (if find_str l ''//'' 0 \<noteq> npos then erase_from l (find_str l ''//'' 0) else l)
         (sz_plus (find_last_not_of
            (if find_str l ''//'' 0 \<noteq> npos then erase_from l (find_str l ''//'' 0) else l)
            CHR '' '') 1)) = Some l2"
    using replace_all_total [of "rev rep"] assms(1) by auto
  then show ?thesis using assms
    by (auto simp: sanitize_line_def Let_def)
qed

lemma sanitize_lines_total:
  "\<forall>r \<in> set rep. fst r \<noteq> [] \<Longrightarrow>
   list_all (\<lambda>l. find_str l ''// SYMBOL'' 0 \<noteq> 0 \<and> find_str l ''// C-REPLACE'' 0 \<noteq> 0
                  \<or> fst (quoted l 0) \<noteq> []) ls \<Longrightarrow>
   \<exists>st. sanitize_lines b suffix ls (rep, ret, g) = Some st"
proof (induction ls arbitrary: rep ret g)
  case Nil
  then show ?case by simp
next
  case (Cons l ls)
  obtain rep' ret' g' where s: "sanitize_line b suffix l (rep, ret, g) = Some (rep', ret', g')"
    and r: "\<forall>r \<in> set rep'. fst r \<noteq> []"
    using sanitize_line_total [of rep l b suffix ret g] Cons.prems by auto
  show ?case using Cons.IH [OF r, of ret' g'] Cons.prems(2) s by simp
qed

lemma sanitize_source_total:
  assumes "template_ok src"
  shows "\<exists>out g'. sanitize_source src inst b g = Some (out, g')"
proof -
  have "\<forall>r \<in> set (initial_rep inst). fst r \<noteq> []"
    by (auto simp: initial_rep_def)
  then obtain st where
    "sanitize_lines b (inst_suffix inst) (getlines src) (initial_rep inst, [], g) = Some st"
    using sanitize_lines_total assms unfolding template_ok_def by blast
  then show ?thesis by (cases st) (auto simp: sanitize_source_def)
qed

text \<open>An empty key with an empty replacement: the loop makes no progress and never returns.\<close>

lemma first_occurrence_empty: "first_occurrence [] xs = Some 0"
  by (cases xs) simp_all

lemma replace_from_no_progress_aux:
  assumes "replace_from key sub l k = Some r"
  shows "\<not> (key = [] \<and> sub = [] \<and> k \<le> length l \<and> k \<noteq> npos)"
proof (rule replace_from.raw_induct
    [where P = "\<lambda>key sub l k r. \<not> (key = [] \<and> sub = [] \<and> k \<le> length l \<and> k \<noteq> npos)",
      OF _ assms])
  fix f :: "string \<Rightarrow> string \<Rightarrow> string \<Rightarrow> nat \<Rightarrow> string option"
    and key sub l :: string and k :: nat and r :: string
  assume IH: "\<And>key sub l k r. f key sub l k = Some r \<Longrightarrow>
      \<not> (key = [] \<and> sub = [] \<and> k \<le> length l \<and> k \<noteq> npos)"
    and body: "(let m = find_str l key k
      in if m = npos then Some l
         else f key sub (replace_str l m (length key) sub) (m + length sub)) = Some r"
  show "\<not> (key = [] \<and> sub = [] \<and> k \<le> length l \<and> k \<noteq> npos)"
  proof
    assume a: "key = [] \<and> sub = [] \<and> k \<le> length l \<and> k \<noteq> npos"
    then have m: "find_str l key k = k"
      by (simp add: find_str_def first_occurrence_empty)
    have "replace_str l k (length key) sub = l" using a by (simp add: replace_str_def)
    with body m a have "f key sub l k = Some r" by (simp add: Let_def)
    from IH [OF this] a show False by blast
  qed
qed

lemma replace_from_no_progress:
  assumes "n \<le> length line" and "n \<noteq> npos"
  shows "replace_from [] [] line n = None"
  using replace_from_no_progress_aux [of "[]" "[]" line n] assms
  by (cases "replace_from [] [] line n") auto

subsection \<open>Auxiliary functions\<close>

lemma aux_grows_refl: "aux_grows g g"
  by (simp add: aux_grows_def extends_refl)

lemma aux_grows_trans [trans]: "aux_grows g g' \<Longrightarrow> aux_grows g' g'' \<Longrightarrow> aux_grows g g''"
  unfolding aux_grows_def by (blast intro: extends_trans)

lemma emit_auxiliary_effect:
  assumes "emit_auxiliary src inst g = Some g'"
  shows "added_auxiliaries g' = added_auxiliaries g
         \<and> (\<exists>t. t \<noteq> [] \<and> auxiliaries g' = auxiliaries g @ t)"
proof -
  from assms obtain out g1 where s: "sanitize_source src inst True g = Some (out, g1)"
    and g': "g' = g1\<lparr>auxiliaries := auxiliaries g1 @ out\<rparr>"
    by (auto simp: emit_auxiliary_def split: option.splits)
  from sanitize_source_only [OF s] show ?thesis
    using g' by (auto simp: only_shorthands_def)
qed

lemma emit_auxiliary_mex_effect:
  assumes "emit_auxiliary_mex src inst g = Some g'"
  shows "added_auxiliaries g' = added_auxiliaries g
         \<and> (\<exists>t. t \<noteq> [] \<and> auxiliaries g' = auxiliaries g @ t)"
proof -
  from assms obtain out g1 where s: "sanitize_source src inst True g = Some (out, g1)"
    and g': "g' = g1\<lparr>auxiliaries := auxiliaries g1 @ ''#ifdef MATLAB_MEX_FILE'' @ endl @ out
                        @ ''#endif'' @ endl @ endl\<rparr>"
    by (auto simp: emit_auxiliary_mex_def split: option.splits)
  from sanitize_source_only [OF s] show ?thesis
    using g' by (auto simp: only_shorthands_def)
qed

lemma emit_auxiliary_grows: "emit_auxiliary src inst g = Some g' \<Longrightarrow> aux_grows g g'"
  by (auto simp: aux_grows_def extends_def dest!: emit_auxiliary_effect)

lemma emit_auxiliary_mex_grows: "emit_auxiliary_mex src inst g = Some g' \<Longrightarrow> aux_grows g g'"
  by (auto simp: aux_grows_def extends_def dest!: emit_auxiliary_mex_effect)

lemma registered_iff:
  "list_ex (\<lambda>it. snd it = inst) (equal_range f R) = ((f, inst) \<in> set R)"
  by (auto simp: list_ex_iff equal_range_def)

lemma register_grows:
  "(f, inst) \<notin> set (added_auxiliaries g) \<Longrightarrow>
   aux_grows g (g\<lparr>added_auxiliaries := added_auxiliaries g @ [(f, inst)]\<rparr>)"
  by (simp add: aux_grows_def extends_def)

lemma aux_grows_length: "aux_grows g g' \<Longrightarrow> length (auxiliaries g) \<le> length (auxiliaries g')"
  by (auto simp: aux_grows_def extends_def)

lemma emit_auxiliary_longer:
  "emit_auxiliary src inst g = Some g' \<Longrightarrow> length (auxiliaries g) < length (auxiliaries g')"
  by (auto dest!: emit_auxiliary_effect)

lemma emit_auxiliary_mex_longer:
  "emit_auxiliary_mex src inst g = Some g' \<Longrightarrow> length (auxiliaries g) < length (auxiliaries g')"
  by (auto dest!: emit_auxiliary_mex_effect)

lemma grows_emit_longer:
  "aux_grows g v \<Longrightarrow> emit_auxiliary src inst v = Some g' \<Longrightarrow>
   length (auxiliaries g) < length (auxiliaries g')"
  by (auto dest!: aux_grows_length emit_auxiliary_longer)

lemma grows_emit_mex_longer:
  "aux_grows g v \<Longrightarrow> emit_auxiliary_mex src inst v = Some g' \<Longrightarrow>
   length (auxiliaries g) < length (auxiliaries g')"
  by (auto dest!: aux_grows_length emit_auxiliary_mex_longer)

text \<open>
  A request only appends to the record and to the section, and the \<open>switch\<close> always
  appends text.
\<close>

lemma add_auxiliary_grows_both:
  "(\<forall>g'. add_auxiliary tmpl f inst g = Some g' \<longrightarrow> aux_grows g g')"
  "(\<forall>g'. add_auxiliary_switch tmpl f inst g = Some g' \<longrightarrow>
      aux_grows g g' \<and> length (auxiliaries g) < length (auxiliaries g'))"
proof (induction tmpl f inst g and tmpl f inst g rule: add_auxiliary_add_auxiliary_switch.induct)
  case (1 tmpl f inst g)
  show ?case
  proof (intro allI impI)
    fix g'
    assume a: "add_auxiliary tmpl f inst g = Some g'"
    show "aux_grows g g'"
    proof (cases "(f, inst) \<in> set (added_auxiliaries g)")
      case True
      then show ?thesis using a by (simp add: add_auxiliary.simps registered_iff aux_grows_refl)
    next
      case False
      then have "add_auxiliary_switch tmpl f inst
                   (g\<lparr>added_auxiliaries := added_auxiliaries g @ [(f, inst)]\<rparr>) = Some g'"
        using a by (simp add: add_auxiliary.simps registered_iff)
      then have "aux_grows (g\<lparr>added_auxiliaries := added_auxiliaries g @ [(f, inst)]\<rparr>) g'"
        using "1.IH" False by (simp add: registered_iff)
      with register_grows [OF False] show ?thesis by (rule aux_grows_trans)
    qed
  qed
next
  case (10 tmpl inst g)
  show ?case
  proof (intro allI impI)
    fix g'
    assume "add_auxiliary_switch tmpl AUX_INTERPN inst g = Some g'"
    then obtain g1 g2 g3 g4 g5 where
      s1: "add_auxiliary tmpl AUX_INTERPN_WEIGHTS default_inst g = Some g1"
      and s2: "add_auxiliary tmpl AUX_INTERPN_INTERPOLATE default_inst g1 = Some g2"
      and s3: "add_auxiliary tmpl AUX_FLIP [] g2 = Some g3"
      and s4: "add_auxiliary tmpl AUX_FILL default_inst g3 = Some g4"
      and s5: "add_auxiliary tmpl AUX_FILL [''int''] g4 = Some g5"
      and s6: "emit_auxiliary (tmpl AUX_INTERPN) inst g5 = Some g'"
      by (auto split: bind_splits)
    have "aux_grows g g1" using "10.IH"(1) s1 by blast
    also have "aux_grows g1 g2" using "10.IH"(2) [OF s1] s2 by blast
    also have "aux_grows g2 g3" using "10.IH"(3) [OF s1 s2] s3 by blast
    also have "aux_grows g3 g4" using "10.IH"(4) [OF s1 s2 s3] s4 by blast
    also have "aux_grows g4 g5" using "10.IH"(5) [OF s1 s2 s3 s4] s5 by blast
    finally have g5: "aux_grows g g5" .
    from g5 emit_auxiliary_grows [OF s6] have "aux_grows g g'" by (rule aux_grows_trans)
    then show "aux_grows g g' \<and> length (auxiliaries g) < length (auxiliaries g')"
      using aux_grows_length [OF g5] emit_auxiliary_longer [OF s6] by simp
  qed
next
  case (13 tmpl inst g)
  show ?case
  proof (intro allI impI)
    fix g'
    assume "add_auxiliary_switch tmpl AUX_ND_BOOR_EVAL inst g = Some g'"
    then obtain g1 g2 g3 g4 where
      s1: "add_auxiliary tmpl AUX_DE_BOOR default_inst g = Some g1"
      and s2: "add_auxiliary tmpl AUX_FILL default_inst g1 = Some g2"
      and s3: "add_auxiliary tmpl AUX_FILL [''int''] g2 = Some g3"
      and s4: "add_auxiliary tmpl AUX_LOW default_inst g3 = Some g4"
      and s5: "emit_auxiliary (tmpl AUX_ND_BOOR_EVAL) inst g4 = Some g'"
      by (auto split: bind_splits)
    have "aux_grows g g1" using "13.IH"(1) s1 by blast
    also have "aux_grows g1 g2" using "13.IH"(2) [OF s1] s2 by blast
    also have "aux_grows g2 g3" using "13.IH"(3) [OF s1 s2] s3 by blast
    also have "aux_grows g3 g4" using "13.IH"(4) [OF s1 s2 s3] s4 by blast
    finally have g4: "aux_grows g g4" .
    from g4 emit_auxiliary_grows [OF s5] have "aux_grows g g'" by (rule aux_grows_trans)
    then show "aux_grows g g' \<and> length (auxiliaries g) < length (auxiliaries g')"
      using aux_grows_length [OF g4] emit_auxiliary_longer [OF s5] by simp
  qed
qed (auto simp: emit_auxiliary_grows emit_auxiliary_mex_grows emit_auxiliary_longer
       emit_auxiliary_mex_longer split: bind_splits
       intro: aux_grows_trans grows_emit_longer grows_emit_mex_longer)

lemma add_auxiliary_registered:
  "(f, inst) \<in> set (added_auxiliaries g) \<Longrightarrow> add_auxiliary tmpl f inst g = Some g"
  by (simp add: add_auxiliary.simps registered_iff)

lemma add_auxiliary_unregistered:
  "(f, inst) \<notin> set (added_auxiliaries g) \<Longrightarrow>
   add_auxiliary tmpl f inst g
   = add_auxiliary_switch tmpl f inst (g\<lparr>added_auxiliaries := added_auxiliaries g @ [(f, inst)]\<rparr>)"
  by (simp add: add_auxiliary.simps registered_iff)

lemma add_auxiliary_records:
  assumes "add_auxiliary tmpl f inst g = Some g'"
  shows "(f, inst) \<in> set (added_auxiliaries g')"
proof (cases "(f, inst) \<in> set (added_auxiliaries g)")
  case True
  then show ?thesis using assms by (simp add: add_auxiliary_registered)
next
  case False
  then have "aux_grows (g\<lparr>added_auxiliaries := added_auxiliaries g @ [(f, inst)]\<rparr>) g'"
    using assms add_auxiliary_grows_both(2)
            [of tmpl f inst "g\<lparr>added_auxiliaries := added_auxiliaries g @ [(f, inst)]\<rparr>"]
    by (simp add: add_auxiliary_unregistered)
  then show ?thesis by (auto simp: aux_grows_def extends_def)
qed

lemma add_auxiliary_emits:
  assumes "(f, inst) \<notin> set (added_auxiliaries g)" and "add_auxiliary tmpl f inst g = Some g'"
  shows "\<exists>t. t \<noteq> [] \<and> auxiliaries g' = auxiliaries g @ t"
proof -
  have "aux_grows (g\<lparr>added_auxiliaries := added_auxiliaries g @ [(f, inst)]\<rparr>) g'
        \<and> length (auxiliaries (g\<lparr>added_auxiliaries := added_auxiliaries g @ [(f, inst)]\<rparr>))
            < length (auxiliaries g')"
    using assms add_auxiliary_grows_both(2)
            [of tmpl f inst "g\<lparr>added_auxiliaries := added_auxiliaries g @ [(f, inst)]\<rparr>"]
    by (simp add: add_auxiliary_unregistered)
  then show ?thesis by (auto simp: aux_grows_def extends_def)
qed

text \<open>What a request adds to the record besides its own pair is of kinds of lower rank.\<close>

lemma add_auxiliary_new_both:
  "(\<forall>g'. add_auxiliary tmpl f inst g = Some g' \<longrightarrow>
      (\<forall>e \<in> set (added_auxiliaries g').
         e \<in> set (added_auxiliaries g) \<or> e = (f, inst) \<or> aux_rank (fst e) < aux_rank f))"
  "(\<forall>g'. add_auxiliary_switch tmpl f inst g = Some g' \<longrightarrow>
      (\<forall>e \<in> set (added_auxiliaries g').
         e \<in> set (added_auxiliaries g) \<or> aux_rank (fst e) < aux_rank f))"
proof (induction tmpl f inst g and tmpl f inst g rule: add_auxiliary_add_auxiliary_switch.induct)
  case (1 tmpl f inst g)
  show ?case
  proof (cases "(f, inst) \<in> set (added_auxiliaries g)")
    case True
    then show ?thesis by (simp add: add_auxiliary_registered)
  next
    case False
    then show ?thesis using "1.IH"
      by (auto simp: add_auxiliary_unregistered registered_iff)
  qed
next
  case (10 tmpl inst g)
  show ?case
  proof (intro allI impI ballI)
    fix g' e
    assume "add_auxiliary_switch tmpl AUX_INTERPN inst g = Some g'"
      and e: "e \<in> set (added_auxiliaries g')"
    then obtain g1 g2 g3 g4 g5 where
      s1: "add_auxiliary tmpl AUX_INTERPN_WEIGHTS default_inst g = Some g1"
      and s2: "add_auxiliary tmpl AUX_INTERPN_INTERPOLATE default_inst g1 = Some g2"
      and s3: "add_auxiliary tmpl AUX_FLIP [] g2 = Some g3"
      and s4: "add_auxiliary tmpl AUX_FILL default_inst g3 = Some g4"
      and s5: "add_auxiliary tmpl AUX_FILL [''int''] g4 = Some g5"
      and s6: "emit_auxiliary (tmpl AUX_INTERPN) inst g5 = Some g'"
      by (auto split: bind_splits)
    have "e \<in> set (added_auxiliaries g5)" using e emit_auxiliary_effect [OF s6] by simp
    then have "e \<in> set (added_auxiliaries g4) \<or> aux_rank (fst e) < 2"
      using "10.IH"(5) [OF s1 s2 s3 s4] s5 by fastforce
    then have "e \<in> set (added_auxiliaries g3) \<or> aux_rank (fst e) < 2"
      using "10.IH"(4) [OF s1 s2 s3] s4 by fastforce
    then have "e \<in> set (added_auxiliaries g2) \<or> aux_rank (fst e) < 2"
      using "10.IH"(3) [OF s1 s2] s3 by fastforce
    then have "e \<in> set (added_auxiliaries g1) \<or> aux_rank (fst e) < 2"
      using "10.IH"(2) [OF s1] s2 by fastforce
    then have "e \<in> set (added_auxiliaries g) \<or> aux_rank (fst e) < 2"
      using "10.IH"(1) s1 by fastforce
    then show "e \<in> set (added_auxiliaries g) \<or> aux_rank (fst e) < aux_rank AUX_INTERPN"
      by simp
  qed
next
  case (13 tmpl inst g)
  show ?case
  proof (intro allI impI ballI)
    fix g' e
    assume "add_auxiliary_switch tmpl AUX_ND_BOOR_EVAL inst g = Some g'"
      and e: "e \<in> set (added_auxiliaries g')"
    then obtain g1 g2 g3 g4 where
      s1: "add_auxiliary tmpl AUX_DE_BOOR default_inst g = Some g1"
      and s2: "add_auxiliary tmpl AUX_FILL default_inst g1 = Some g2"
      and s3: "add_auxiliary tmpl AUX_FILL [''int''] g2 = Some g3"
      and s4: "add_auxiliary tmpl AUX_LOW default_inst g3 = Some g4"
      and s5: "emit_auxiliary (tmpl AUX_ND_BOOR_EVAL) inst g4 = Some g'"
      by (auto split: bind_splits)
    have "e \<in> set (added_auxiliaries g4)" using e emit_auxiliary_effect [OF s5] by simp
    then have "e \<in> set (added_auxiliaries g3) \<or> aux_rank (fst e) < 1"
      using "13.IH"(4) [OF s1 s2 s3] s4 by fastforce
    then have "e \<in> set (added_auxiliaries g2) \<or> aux_rank (fst e) < 1"
      using "13.IH"(3) [OF s1 s2] s3 by fastforce
    then have "e \<in> set (added_auxiliaries g1) \<or> aux_rank (fst e) < 1"
      using "13.IH"(2) [OF s1] s2 by fastforce
    then have "e \<in> set (added_auxiliaries g) \<or> aux_rank (fst e) < 1"
      using "13.IH"(1) s1 by fastforce
    then show "e \<in> set (added_auxiliaries g) \<or> aux_rank (fst e) < aux_rank AUX_ND_BOOR_EVAL"
      by simp
  qed
qed (fastforce split: bind_splits dest!: emit_auxiliary_effect emit_auxiliary_mex_effect)+

lemma add_auxiliary_other_inst:
  assumes "add_auxiliary tmpl f inst g = Some g'" and "inst2 \<noteq> inst"
    and "(f, inst2) \<notin> set (added_auxiliaries g)"
  shows "(f, inst2) \<notin> set (added_auxiliaries g')"
  using add_auxiliary_new_both(1) [of tmpl f inst g] assms by fastforce

text \<open>With templates whose keys are not empty, every request returns.\<close>

lemma emit_auxiliary_total:
  "template_ok src \<Longrightarrow> \<exists>g'. emit_auxiliary src inst g = Some g'"
  using sanitize_source_total [of src inst True g] by (auto simp: emit_auxiliary_def)

lemma emit_auxiliary_mex_total:
  "template_ok src \<Longrightarrow> \<exists>g'. emit_auxiliary_mex src inst g = Some g'"
  using sanitize_source_total [of src inst True g] by (auto simp: emit_auxiliary_mex_def)

lemma add_auxiliary_total_both:
  "(\<forall>k. template_ok (tmpl k)) \<longrightarrow> (\<exists>g'. add_auxiliary tmpl f inst g = Some g')"
  "(\<forall>k. template_ok (tmpl k)) \<longrightarrow> (\<exists>g'. add_auxiliary_switch tmpl f inst g = Some g')"
proof (induction tmpl f inst g and tmpl f inst g rule: add_auxiliary_add_auxiliary_switch.induct)
  case (1 tmpl f inst g)
  show ?case
  proof (cases "(f, inst) \<in> set (added_auxiliaries g)")
    case True
    then show ?thesis by (simp add: add_auxiliary_registered)
  next
    case False
    then show ?thesis using "1.IH" by (simp add: add_auxiliary_unregistered registered_iff)
  qed
next
  case (10 tmpl inst g)
  show ?case
  proof
    assume t: "\<forall>k. template_ok (tmpl k)"
    obtain g1 where s1: "add_auxiliary tmpl AUX_INTERPN_WEIGHTS default_inst g = Some g1"
      using "10.IH"(1) t by blast
    obtain g2 where s2: "add_auxiliary tmpl AUX_INTERPN_INTERPOLATE default_inst g1 = Some g2"
      using "10.IH"(2) [OF s1] t by blast
    obtain g3 where s3: "add_auxiliary tmpl AUX_FLIP [] g2 = Some g3"
      using "10.IH"(3) [OF s1 s2] t by blast
    obtain g4 where s4: "add_auxiliary tmpl AUX_FILL default_inst g3 = Some g4"
      using "10.IH"(4) [OF s1 s2 s3] t by blast
    obtain g5 where s5: "add_auxiliary tmpl AUX_FILL [''int''] g4 = Some g5"
      using "10.IH"(5) [OF s1 s2 s3 s4] t by blast
    show "\<exists>g'. add_auxiliary_switch tmpl AUX_INTERPN inst g = Some g'"
      using s1 s2 s3 s4 s5 emit_auxiliary_total [of "tmpl AUX_INTERPN" inst g5] t by simp
  qed
next
  case (13 tmpl inst g)
  show ?case
  proof
    assume t: "\<forall>k. template_ok (tmpl k)"
    obtain g1 where s1: "add_auxiliary tmpl AUX_DE_BOOR default_inst g = Some g1"
      using "13.IH"(1) t by blast
    obtain g2 where s2: "add_auxiliary tmpl AUX_FILL default_inst g1 = Some g2"
      using "13.IH"(2) [OF s1] t by blast
    obtain g3 where s3: "add_auxiliary tmpl AUX_FILL [''int''] g2 = Some g3"
      using "13.IH"(3) [OF s1 s2] t by blast
    obtain g4 where s4: "add_auxiliary tmpl AUX_LOW default_inst g3 = Some g4"
      using "13.IH"(4) [OF s1 s2 s3] t by blast
    show "\<exists>g'. add_auxiliary_switch tmpl AUX_ND_BOOR_EVAL inst g = Some g'"
      using s1 s2 s3 s4 emit_auxiliary_total [of "tmpl AUX_ND_BOOR_EVAL" inst g4] t by simp
  qed
qed (auto simp: emit_auxiliary_total emit_auxiliary_mex_total)

lemma distinct_count_list:
  "distinct xs \<Longrightarrow> x \<in> set xs \<Longrightarrow> count_list xs x = 1"
  by (induction xs) (auto simp: count_list_0_iff)

text \<open>The request for \<open>densify\<close> with one type, unfolded.\<close>

lemma densify_fresh:
  assumes "(AUX_DENSIFY, [t]) \<notin> set (added_auxiliaries g)"
    and "(AUX_FILL, default_inst) \<notin> set (added_auxiliaries g)"
  shows "add_auxiliary tmpl AUX_DENSIFY [t] g
         = do {
             g1 \<leftarrow> emit_auxiliary (tmpl AUX_FILL) default_inst
                     (g\<lparr>added_auxiliaries := added_auxiliaries g
                          @ [(AUX_DENSIFY, [t]), (AUX_FILL, default_inst)]\<rparr>);
             emit_auxiliary (tmpl AUX_DENSIFY) [t, t] g1
           }"
  using assms by (simp add: add_auxiliary_unregistered)

lemma densify_fill_known:
  assumes "(AUX_DENSIFY, [t]) \<notin> set (added_auxiliaries g)"
    and "(AUX_FILL, default_inst) \<in> set (added_auxiliaries g)"
  shows "add_auxiliary tmpl AUX_DENSIFY [t] g
         = emit_auxiliary (tmpl AUX_DENSIFY) [t, t]
             (g\<lparr>added_auxiliaries := added_auxiliaries g @ [(AUX_DENSIFY, [t])]\<rparr>)"
  using assms by (simp add: add_auxiliary_unregistered add_auxiliary_registered)

lemma densify_records_fill:
  assumes "(AUX_DENSIFY, [t]) \<notin> set (added_auxiliaries g)"
    and "add_auxiliary tmpl AUX_DENSIFY [t] g = Some g'"
  shows "(AUX_FILL, default_inst) \<in> set (added_auxiliaries g')"
proof -
  from assms obtain g1 where
    f: "add_auxiliary tmpl AUX_FILL default_inst
          (g\<lparr>added_auxiliaries := added_auxiliaries g @ [(AUX_DENSIFY, [t])]\<rparr>) = Some g1"
    and e: "emit_auxiliary (tmpl AUX_DENSIFY) [t, t] g1 = Some g'"
    by (auto simp: add_auxiliary_unregistered split: bind_splits)
  from add_auxiliary_records [OF f] emit_auxiliary_effect [OF e] show ?thesis by simp
qed

lemma densify_total:
  assumes "template_ok (tmpl AUX_FILL)" and "template_ok (tmpl AUX_DENSIFY)"
  shows "\<exists>g1. add_auxiliary tmpl AUX_DENSIFY inst g = Some g1"
proof (cases "(AUX_DENSIFY, inst) \<in> set (added_auxiliaries g)")
  case True
  then show ?thesis by (simp add: add_auxiliary_registered)
next
  case False
  define g0 where "g0 = g\<lparr>added_auxiliaries := added_auxiliaries g @ [(AUX_DENSIFY, inst)]\<rparr>"
  have "\<exists>g1. add_auxiliary tmpl AUX_FILL default_inst g0 = Some g1"
  proof (cases "(AUX_FILL, default_inst) \<in> set (added_auxiliaries g0)")
    case True
    then show ?thesis by (simp add: add_auxiliary_registered)
  next
    case False
    then show ?thesis using emit_auxiliary_total [OF assms(1)]
      by (simp add: add_auxiliary_unregistered)
  qed
  then obtain g1 where g1: "add_auxiliary tmpl AUX_FILL default_inst g0 = Some g1" by blast
  obtain g2 where "emit_auxiliary (tmpl AUX_DENSIFY)
      (if length inst = 1 then inst @ [inst ! 0] else inst) g1 = Some g2"
    using emit_auxiliary_total [OF assms(2)] by blast
  then show ?thesis using False g1 by (simp add: add_auxiliary_unregistered g0_def)
qed

subsection \<open>Registering functions\<close>

lemma scan_braces_functions:
  "scan_braces s g = Inr g' \<Longrightarrow> added_functions g' = added_functions g"
  by (induction s arbitrary: g)
     (auto simp: indent_cg_def unindent_def split: if_splits sum.splits)

lemma print_formatted_functions:
  "print_formatted s g = Inr g' \<Longrightarrow> added_functions g' = added_functions g"
  by (auto simp: print_formatted_def start_line_def Let_def
        split: if_splits sum.splits dest!: scan_braces_functions)

lemma stream_from_functions:
  "stream_from s off g = Inr g' \<Longrightarrow> added_functions g' = added_functions g"
proof (induction s off g rule: stream_from.induct)
  case (1 s off g)
  show ?case
  proof (cases "find_str s endl off = npos")
    case True
    then show ?thesis using "1.prems"
      by (simp add: stream_from.simps [of s off] print_formatted_functions)
  next
    case False
    then obtain g1 where p: "print_formatted (substr s off (find_str s endl off - off)) g = Inr g1"
      and r: "stream_from s (find_str s endl off + 1)
                (g1\<lparr>buffer := buffer g1 @ endl, newline := True\<rparr>) = Inr g'"
      using "1.prems" by (auto simp: stream_from.simps [of s off] Let_def split: sum.splits)
    have "added_functions g' = added_functions (g1\<lparr>buffer := buffer g1 @ endl, newline := True\<rparr>)"
      using "1.IH" [OF refl False p r] .
    then show ?thesis using print_formatted_functions [OF p] by simp
  qed
qed

lemma stream_all_functions:
  "stream_all ts g = Inr g' \<Longrightarrow> added_functions g' = added_functions g"
proof (induction ts arbitrary: g)
  case Nil
  then show ?case by simp
next
  case (Cons t ts)
  then show ?case
    by (auto simp: stream_out_def split: sum.splits dest!: stream_from_functions)
qed

lemma keeps_stream_all: "keeps_functions (stream_all ts)"
  by (auto simp: keeps_functions_def extends_def dest!: stream_all_functions)

lemma keepsD:
  "keeps_functions cb \<Longrightarrow> cb g = Inr g' \<Longrightarrow> extends (added_functions g) (added_functions g')"
  by (auto simp: keeps_functions_def)

lemma and_then_Inr:
  "(and_then r k = Inr y) = (\<exists>x. r = Inr x \<and> k x = Inr y)"
  by (cases r) (simp_all add: and_then_def)

lemma codegen_refcount_keeps:
  assumes "callbacks_keep node" and "codegen_refcount node fname g = Inr g'"
  shows "extends (added_functions g) (added_functions g')"
proof -
  from assms(2) obtain g1 g2 g3 g4 g5 where
    s: "stream_all [''void '', fname, ''_incref(void) {'' @ endl] g = Inr g1"
       "codegen_incref node g1 = Inr g2"
       "stream_all [''}'' @ endl @ endl] g2 = Inr g3"
       "stream_all [''void '', fname, ''_decref(void) {'' @ endl] g3 = Inr g4"
       "codegen_decref node g4 = Inr g5"
       "stream_all [''}'' @ endl @ endl] g5 = Inr g'"
    unfolding codegen_refcount_def and_then_Inr by blast
  have "extends (added_functions g1) (added_functions g2)"
    and "extends (added_functions g4) (added_functions g5)"
    using keepsD [of "codegen_incref node" g1 g2] keepsD [of "codegen_decref node" g4 g5]
      s(2,5) assms(1)
    by (simp_all add: callbacks_keep_def)
  then show ?thesis
    using stream_all_functions [OF s(1)] stream_all_functions [OF s(3)]
      stream_all_functions [OF s(4)] stream_all_functions [OF s(6)]
    by (auto intro: extends_trans)
qed

lemma find_added_append:
  "find_added f (xs @ ys) = (case find_added f xs of Some n \<Rightarrow> Some n | None \<Rightarrow> find_added f ys)"
  by (induction xs) auto

lemma find_added_extends:
  "find_added f xs = Some n \<Longrightarrow> extends xs ys \<Longrightarrow> find_added f ys = Some n"
  by (auto simp: extends_def find_added_append)

text \<open>What a first registration leaves: the entry, found first under the handle.\<close>

lemma add_dependency_registers:
  assumes "callbacks_keep (deref f)" and "add_dependency deref f g = Inr (name, g')"
  shows "find_added f (added_functions g') = Some name
         \<and> extends (added_functions g) (added_functions g')"
proof (cases "find_added f (added_functions g)")
  case (Some n)
  then show ?thesis using assms(2) by (simp add: add_dependency_def extends_refl)
next
  case None
  define fname where "fname = ''casadi_'' @ ''f'' @ str_nat (length (added_functions g))"
  define g1 where "g1 = g\<lparr>added_shorthands :=
      insert (''f'' @ str_nat (length (added_functions g))) (added_shorthands g)\<rparr>"
  have sh: "shorthand_reg (''f'' @ str_nat (length (added_functions g))) True g = (Inr fname, g1)"
    by (simp add: shorthand_reg_def fname_def g1_def Let_def)
  from assms(2) None sh obtain g2 g3 g4 where
    c1: "codegen_declarations (deref f)
           (g1\<lparr>added_functions := added_functions g1 @ [(f, fname)]\<rparr>) = Inr g2"
    and c2: "codegen (deref f) fname g2 = Inr g3"
    and c3: "(if has_refcount (deref f) then codegen_refcount (deref f) fname g3 else Inr g3) = Inr g4"
    and res: "name = fname" "g' = flush_body g4"
    by (auto simp: add_dependency_def and_then_Inr)
  have e1: "extends (added_functions g @ [(f, fname)]) (added_functions g2)"
    using keepsD [of "codegen_declarations (deref f)"
                     "g1\<lparr>added_functions := added_functions g1 @ [(f, fname)]\<rparr>" g2] c1 assms(1)
    by (simp add: callbacks_keep_def g1_def)
  have e2: "extends (added_functions g2) (added_functions g3)"
    using keepsD [of "codegen (deref f) fname" g2 g3] c2 assms(1)
    by (simp add: callbacks_keep_def)
  have e3: "extends (added_functions g3) (added_functions g4)"
    using c3 codegen_refcount_keeps [OF assms(1)] by (auto simp: extends_refl split: if_splits)
  have e: "extends (added_functions g @ [(f, fname)]) (added_functions g')"
    using e1 e2 e3 res(2) by (auto simp: flush_body_def intro: extends_trans)
  have "find_added f (added_functions g @ [(f, fname)]) = Some fname"
    using None by (simp add: find_added_append)
  then have "find_added f (added_functions g') = Some fname"
    using e by (rule find_added_extends)
  moreover have "extends (added_functions g) (added_functions g')"
    using extends_snoc e by (rule extends_trans)
  ultimately show ?thesis using res(1) by simp
qed

lemma add_dependency_known:
  "find_added f (added_functions g) = Some name \<Longrightarrow> add_dependency deref f g = Inr (name, g)"
  by (simp add: add_dependency_def)

subsection \<open>Rendering a \<open>double\<close> constant\<close>

lemma nan_not_inf: "is_nan v \<Longrightarrow> \<not> is_inf v"
proof
  assume n: "is_nan v" and i: "is_inf v"
  have "v AND 0x000FFFFFFFFFFFFF = (v AND 0x7FFFFFFFFFFFFFFF) AND 0x000FFFFFFFFFFFFF"
    by (simp add: and.assoc)
  also have "\<dots> = 0" using i by (simp add: is_inf_def)
  finally show False using n by (simp add: is_nan_def)
qed

text \<open>The truncated magnitude is the magnitude exactly when the value is integral.\<close>

lemma trunc_exact:
  fixes s e b :: nat
  shows "(b \<le> e \<or> s mod 2 ^ (b - e) = 0)
         = ((if b \<le> e then s * 2 ^ (e - b) else s div 2 ^ (b - e)) * 2 ^ b = s * 2 ^ e)"
proof (cases "b \<le> e")
  case True
  then have "(2::nat) ^ e = 2 ^ (e - b) * 2 ^ b"
    by (simp add: power_add [symmetric])
  then show ?thesis using True by simp
next
  case False
  define k where "k = b - e"
  have p: "(2::nat) ^ b = 2 ^ k * 2 ^ e"
    using False by (simp add: k_def power_add [symmetric])
  have "(s div 2 ^ k * (2 ^ k * 2 ^ e) = s * 2 ^ e) = (s div 2 ^ k * 2 ^ k = s)"
    by (simp add: mult.assoc [symmetric])
  also have "\<dots> = (s mod 2 ^ k = 0)"
    by (metis add_cancel_right_right div_mult_mod_eq mod_div_mult_eq mult.commute
          mod_mult_self2_is_0)
  finally show ?thesis using False by (simp add: p k_def [symmetric])
qed

lemma integral_exact:
  "is_integral d = (magnitude_trunc d * 2 ^ 1075 = significand d * 2 ^ exponent_scale d)"
  unfolding is_integral_def magnitude_trunc_def by (rule trunc_exact)

text \<open>Whatever an unguarded conversion leaves, it is an \<open>int\<close>: the comparison
  \<open>v_int==v\<close> holds exactly for the integral values that an \<open>int\<close> holds.\<close>

lemma to_int_range: "- (2 ^ 31) \<le> to_int ub v \<and> to_int ub v \<le> 2 ^ 31 - 1"
proof (cases "fits_int v")
  case True
  then show ?thesis by (simp add: to_int_def fits_int_def)
next
  case False
  have "- (2 ^ 31) \<le> sint (ub v)" using sint_ge [of "ub v"] by simp
  moreover have "sint (ub v) < 2 ^ 31" using sint_lt [of "ub v"] by simp
  ultimately show ?thesis using False by (simp add: to_int_def)
qed

lemma int_equals_to_int: "int_equals (to_int ub v) v = (is_integral v \<and> fits_int v)"
proof (cases "fits_int v")
  case True
  then show ?thesis by (simp add: int_equals_def to_int_def)
next
  case False
  then have "to_int ub v \<noteq> truncated v"
    using to_int_range [of ub v] by (auto simp: fits_int_def)
  then show ?thesis using False by (simp add: int_equals_def)
qed

lemma constant_double_nan: "is_nan v \<Longrightarrow> constant_double sci ub v = ''NAN''"
  by (simp add: constant_double_def)

lemma constant_double_inf:
  "is_inf v \<Longrightarrow> constant_double sci ub v = (if sign_bit v then ''-INFINITY'' else ''INFINITY'')"
  using nan_not_inf [of v] by (auto simp: constant_double_def)

lemma constant_double_integral:
  assumes "\<not> is_nan v" and "\<not> is_inf v" and "is_integral v" and "fits_int v"
  shows "constant_double sci ub v = str_int (truncated v) @ ''.''"
    and "nat \<bar>truncated v\<bar> * 2 ^ 1075 = significand v * 2 ^ exponent_scale v"
proof -
  show "constant_double sci ub v = str_int (truncated v) @ ''.''"
    using assms by (simp add: constant_double_def int_equals_to_int Let_def) (simp add: to_int_def)
  have "nat \<bar>truncated v\<bar> = magnitude_trunc v" by (simp add: truncated_def)
  then show "nat \<bar>truncated v\<bar> * 2 ^ 1075 = significand v * 2 ^ exponent_scale v"
    using assms(3) by (simp add: integral_exact)
qed

lemma constant_double_scientific:
  assumes "\<not> is_nan v" and "\<not> is_inf v" and "\<not> (is_integral v \<and> fits_int v)"
  shows "constant_double sci ub v = sci (digits10 + 1) v"
  using assms by (auto simp: constant_double_def int_equals_to_int Let_def)

subsection \<open>The sample templates, run\<close>

lemmas sanitize_eval =
  sample_templates_def fill_template_def densify_template_def symbol_fill_def
  emit_auxiliary_def sanitize_source_def getlines.simps endl_def
  inst_suffix_def initial_rep_def sanitize_line_def find_str_def npos_def quoted_def
  sz_plus_def sz_minus_def substr_def shorthand_reg_def erase_from_def
  find_last_not_of_def replace_from.simps replace_str_def str_nat.simps digit_char_def
  Let_def

lemma sample_templates_ok: "template_ok (sample_templates k)"
  by (cases "k = AUX_FILL"; cases "k = AUX_DENSIFY";
      simp add: template_ok_def sample_templates_def fill_template_def densify_template_def
        symbol_fill_def getlines.simps endl_def find_str_def npos_def quoted_def sz_plus_def
        sz_minus_def substr_def Let_def)

lemma fill_first:
  "add_auxiliary sample_templates AUX_FILL [''casadi_real''] CodeGenerator_new = Some after_fill"
  by (simp add: add_auxiliary.simps equal_range_def sanitize_eval after_fill_def fill_text_def
        CodeGenerator_new_def members_initial_def add_include_def)

lemma fill_int_second:
  "add_auxiliary sample_templates AUX_FILL [''int''] after_fill = Some after_fill_int"
  by (simp add: add_auxiliary.simps equal_range_def sanitize_eval after_fill_def
        after_fill_int_def fill_text_def fill_int_text_def
        CodeGenerator_new_def members_initial_def add_include_def insert_commute)

lemma densify_first:
  "add_auxiliary sample_templates AUX_DENSIFY [''double''] CodeGenerator_new = Some after_densify"
  by (simp add: add_auxiliary.simps equal_range_def sanitize_eval default_inst_def
        after_densify_def fill_text_def densify_text_def
        CodeGenerator_new_def members_initial_def add_include_def insert_commute)

lemma replicate_two: "replicate 2 x = [x, x]"
  by (simp add: numeral_2_eq_2)

lemma keeps_Inr: "keeps_functions Inr"
  by (simp add: keeps_functions_def extends_refl)

lemma leaf_node_keeps: "callbacks_keep leaf_node"
  by (simp add: callbacks_keep_def leaf_node_def keeps_Inr keeps_stream_all)

lemma counted_node_keeps: "callbacks_keep counted_node"
proof -
  have "keeps_functions (\<lambda>g. map_sum id snd (add_dependency (\<lambda>f. leaf_node) 8 g))"
    unfolding keeps_functions_def
  proof (intro allI impI)
    fix g g'
    assume "map_sum id snd (add_dependency (\<lambda>f. leaf_node) 8 g) = Inr g'"
    then obtain n where "add_dependency (\<lambda>f. leaf_node) 8 g = Inr (n, g')"
      by (cases "add_dependency (\<lambda>f. leaf_node) 8 g") auto
    then show "extends (added_functions g) (added_functions g')"
      using add_dependency_registers [of "\<lambda>f. leaf_node" 8 g n g'] leaf_node_keeps by simp
  qed
  then show ?thesis
    by (simp add: callbacks_keep_def counted_node_def keeps_stream_all)
qed

lemma sample_functions_keep: "callbacks_keep (sample_functions f)"
  by (simp add: sample_functions_def leaf_node_keeps counted_node_keeps)

lemma register_first:
  "add_dependency sample_functions 7 CodeGenerator_new = Inr (''casadi_f0'', after_register)"
  by (simp add: add_dependency_def sample_functions_def counted_node_def leaf_node_def
        shorthand_reg_def and_then_def codegen_refcount_def flush_body_def after_register_def
        stream_out_def stream_from.simps find_str_def endl_def npos_def substr_def
        print_formatted_def start_line_def indent_cg_def unindent_def str_nat.simps
        digit_char_def Let_def CodeGenerator_new_def members_initial_def add_include_def
        insert_commute replicate_two)

section \<open>Claims\<close>

text \<open>
  C1, as the code has it. In a generator whose hash indexes point into their pools, take
  two payloads that compare element-wise equal and hash to the same value (two equal
  \<open>int\<close> payloads always do, and so do two \<open>double\<close> payloads with the same bits and no
  NaN). Interning the first with \<open>allow_adding\<close> true returns an id, and interning the
  second after any further requests to the pools returns the same id and adds nothing.
  Two payloads that do not compare element-wise equal get distinct ids, whether their
  hashes collide or not.
\<close>

theorem C1_interning_ids:
  assumes "pools_ok g"
  shows "(equal_vec double_eq v v' \<and> hash_double hc v = hash_double hc v' \<longrightarrow>
            (\<exists>i. fst (get_constant_double hc v True g) = Inr i
               \<and> get_constant_double hc v' True
                    (serve_all hc hcv rs (snd (get_constant_double hc v True g)))
                  = (Inr i, serve_all hc hcv rs (snd (get_constant_double hc v True g)))))
       \<and> (equal_vec (=) w w' \<longrightarrow>
            (\<exists>i. fst (get_constant_int hcv w True g) = Inr i
               \<and> get_constant_int hcv w' True
                    (serve_all hc hcv rs (snd (get_constant_int hcv w True g)))
                  = (Inr i, serve_all hc hcv rs (snd (get_constant_int hcv w True g)))))
       \<and> (\<not> equal_vec double_eq v v' \<longrightarrow>
            fst (get_constant_double hc v' True
                   (serve_all hc hcv rs (snd (get_constant_double hc v True g))))
              \<noteq> fst (get_constant_double hc v True g))
       \<and> (\<not> equal_vec (=) w w' \<longrightarrow>
            fst (get_constant_int hcv w' True
                   (serve_all hc hcv rs (snd (get_constant_int hcv w True g))))
              \<noteq> fst (get_constant_int hcv w True g))"
proof (intro conjI impI)
  assume "equal_vec double_eq v v' \<and> hash_double hc v = hash_double hc v'"
  then show "\<exists>i. fst (get_constant_double hc v True g) = Inr i
               \<and> get_constant_double hc v' True
                    (serve_all hc hcv rs (snd (get_constant_double hc v True g)))
                  = (Inr i, serve_all hc hcv rs (snd (get_constant_double hc v True g)))"
    using same_id_double [OF assms, of v v' hc True hcv rs] by blast
next
  assume "equal_vec (=) w w'"
  then have "w' = w" by (simp add: equal_vec_eq)
  then show "\<exists>i. fst (get_constant_int hcv w True g) = Inr i
               \<and> get_constant_int hcv w' True
                    (serve_all hc hcv rs (snd (get_constant_int hcv w True g)))
                  = (Inr i, serve_all hc hcv rs (snd (get_constant_int hcv w True g)))"
    using same_id_int [OF assms, of hcv w True hc rs] by simp
next
  assume "\<not> equal_vec double_eq v v'"
  then show "fst (get_constant_double hc v' True
                   (serve_all hc hcv rs (snd (get_constant_double hc v True g))))
              \<noteq> fst (get_constant_double hc v True g)"
    using assms by (rule distinct_ids_double [rotated])
next
  assume "\<not> equal_vec (=) w w'"
  then have "w \<noteq> w'" by (simp add: equal_vec_eq)
  then show "fst (get_constant_int hcv w' True
                   (serve_all hc hcv rs (snd (get_constant_int hcv w True g))))
              \<noteq> fst (get_constant_int hcv w True g)"
    using assms by (rule distinct_ids_int [rotated])
qed

text \<open>
  The instance: every hash collides (\<open>hash_combine_flat\<close>), \<open>[1.0, 2.0]\<close> and \<open>[4, 5]\<close> are
  interned first, \<open>[3.0]\<close> and \<open>[7]\<close> in between; the payloads come back under id 0, and
  \<open>[1.0, 3.0]\<close> and \<open>[4, 6]\<close> get other ids.
\<close>

theorem C1_interning_ids_witness:
  "pools_ok CodeGenerator_new
   \<and> equal_vec double_eq [0x3FF0000000000000, 0x4000000000000000]
        [0x3FF0000000000000, 0x4000000000000000]
   \<and> \<not> equal_vec double_eq [0x3FF0000000000000, 0x4000000000000000]
        [0x3FF0000000000000, 0x4008000000000000]
   \<and> fst (get_constant_double hash_combine_flat [0x3FF0000000000000, 0x4000000000000000] True
        CodeGenerator_new) = Inr 0
   \<and> fst (get_constant_double hash_combine_flat [0x3FF0000000000000, 0x4000000000000000] True
        (serve_all hash_combine_flat hash_combine_flat_vec
           [Double [0x4008000000000000] True, Integer [7] True]
           (snd (get_constant_double hash_combine_flat [0x3FF0000000000000, 0x4000000000000000]
                   True CodeGenerator_new)))) = Inr 0
   \<and> fst (get_constant_double hash_combine_flat [0x3FF0000000000000, 0x4008000000000000] True
        (serve_all hash_combine_flat hash_combine_flat_vec
           [Double [0x4008000000000000] True, Integer [7] True]
           (snd (get_constant_double hash_combine_flat [0x3FF0000000000000, 0x4000000000000000]
                   True CodeGenerator_new)))) \<noteq> Inr 0
   \<and> fst (get_constant_int hash_combine_flat_vec [4, 5] True CodeGenerator_new) = Inr 0
   \<and> fst (get_constant_int hash_combine_flat_vec [4, 5] True
        (serve_all hash_combine_flat hash_combine_flat_vec
           [Double [0x4008000000000000] True, Integer [7] True]
           (snd (get_constant_int hash_combine_flat_vec [4, 5] True CodeGenerator_new)))) = Inr 0
   \<and> fst (get_constant_int hash_combine_flat_vec [4, 6] True
        (serve_all hash_combine_flat hash_combine_flat_vec
           [Double [0x4008000000000000] True, Integer [7] True]
           (snd (get_constant_int hash_combine_flat_vec [4, 5] True CodeGenerator_new)))) \<noteq> Inr 0"
proof -
  have ok: "pools_ok CodeGenerator_new"
    by (simp add: pools_ok_def index_ok_def CodeGenerator_new_def members_initial_def
          add_include_def)
  have e: "equal_vec double_eq [0x3FF0000000000000, 0x4000000000000000]
        [0x3FF0000000000000, 0x4000000000000000]"
    by (simp add: equal_vec_def double_eq_def is_nan_def)
  have n: "\<not> equal_vec double_eq [0x3FF0000000000000, 0x4000000000000000]
        [0x3FF0000000000000, 0x4008000000000000]"
    by (simp add: equal_vec_def double_eq_def is_nan_def is_zero_def)
  have d0: "fst (get_constant_double hash_combine_flat [0x3FF0000000000000, 0x4000000000000000]
        True CodeGenerator_new) = Inr 0"
    by (simp add: get_constant_double_def CodeGenerator_new_def members_initial_def
          add_include_def equal_range_def Let_def)
  have i0: "fst (get_constant_int hash_combine_flat_vec [4, 5] True CodeGenerator_new) = Inr 0"
    by (simp add: get_constant_int_def CodeGenerator_new_def members_initial_def
          add_include_def equal_range_def Let_def)
  have ei: "equal_vec (=) [4, 5 :: cint] [4, 5]" and ni: "\<not> equal_vec (=) [4, 5 :: cint] [4, 6]"
    by (simp_all add: equal_vec_def)
  show ?thesis
    using C1_interning_ids [OF ok, where v = "[0x3FF0000000000000, 0x4000000000000000]"
            and v' = "[0x3FF0000000000000, 0x4000000000000000]" and hc = hash_combine_flat
            and w = "[4, 5]" and w' = "[4, 5]" and hcv = hash_combine_flat_vec
            and rs = "[Double [0x4008000000000000] True, Integer [7] True]"]
          C1_interning_ids [OF ok, where v = "[0x3FF0000000000000, 0x4000000000000000]"
            and v' = "[0x3FF0000000000000, 0x4008000000000000]" and hc = hash_combine_flat
            and w = "[4, 5]" and w' = "[4, 6]" and hcv = hash_combine_flat_vec
            and rs = "[Double [0x4008000000000000] True, Integer [7] True]"]
          ok e n d0 i0 ei ni
    by simp
qed

text \<open>
  The claim as the spec words it fails on \<open>double\<close> payloads. The hash is taken over the
  bits and the comparison is \<open>==\<close>: \<open>[0.0]\<close> and \<open>[-0.0]\<close> compare element-wise equal and
  get the ids 0 and 1, and the payload \<open>[NaN]\<close> interned twice gets the ids 0 and 1 as well.
\<close>

theorem C1_double_payload_counterexample:
  "equal_vec double_eq [0] [0x8000000000000000]
   \<and> fst (get_constant_double hash_combine_mix [0] True CodeGenerator_new) = Inr 0
   \<and> fst (get_constant_double hash_combine_mix [0x8000000000000000] True
            (snd (get_constant_double hash_combine_mix [0] True CodeGenerator_new))) = Inr 1
   \<and> fst (get_constant_double hash_combine_mix [0x7FF8000000000000] True CodeGenerator_new) = Inr 0
   \<and> fst (get_constant_double hash_combine_mix [0x7FF8000000000000] True
            (snd (get_constant_double hash_combine_mix [0x7FF8000000000000] True
                    CodeGenerator_new))) = Inr 1"
  by (simp add: get_constant_double_def hash_double_def hash_combine_mix_def
        CodeGenerator_new_def members_initial_def add_include_def equal_range_def
        equal_vec_def double_eq_def is_nan_def is_zero_def Let_def)

text \<open>
  C2. Each pair of a kind and an instantiation list is emitted at most once.
  \<^item> A request for a pair that is on record returns the generator unchanged: the auxiliary
    section and the record stay as they are.
  \<^item> After any request that returns, the pair is on record, so the same request again
    changes nothing; and a record without repetitions stays without repetitions.
  \<^item> A request for a pair that is not on record appends text to the auxiliary section, and
    it returns whenever no template quotes an empty symbol or key.
  \<^item> In particular a request for the same kind with another instantiation list, not
    requested before, is still off the record after the first request and is emitted anew.
\<close>

theorem C2_auxiliary_emitted_once:
  "((f, inst) \<in> set (added_auxiliaries g) \<longrightarrow> add_auxiliary tmpl f inst g = Some g)
   \<and> (add_auxiliary tmpl f inst g = Some g' \<longrightarrow>
        (f, inst) \<in> set (added_auxiliaries g') \<and> add_auxiliary tmpl f inst g' = Some g'
        \<and> (distinct (added_auxiliaries g) \<longrightarrow> distinct (added_auxiliaries g')))
   \<and> ((f, inst) \<notin> set (added_auxiliaries g) \<and> add_auxiliary tmpl f inst g = Some g' \<longrightarrow>
        (\<exists>t. t \<noteq> [] \<and> auxiliaries g' = auxiliaries g @ t))
   \<and> ((\<forall>k. template_ok (tmpl k)) \<longrightarrow> (\<exists>g1. add_auxiliary tmpl f inst g = Some g1))
   \<and> (add_auxiliary tmpl f inst g = Some g' \<and> inst2 \<noteq> inst
        \<and> (f, inst2) \<notin> set (added_auxiliaries g) \<and> add_auxiliary tmpl f inst2 g' = Some g''
      \<longrightarrow> (f, inst2) \<notin> set (added_auxiliaries g') \<and> (f, inst2) \<in> set (added_auxiliaries g'')
          \<and> (\<exists>t. t \<noteq> [] \<and> auxiliaries g'' = auxiliaries g' @ t))"
proof (intro conjI impI)
  assume "(f, inst) \<in> set (added_auxiliaries g)"
  then show "add_auxiliary tmpl f inst g = Some g" by (rule add_auxiliary_registered)
next
  assume a: "add_auxiliary tmpl f inst g = Some g'"
  then show r: "(f, inst) \<in> set (added_auxiliaries g')" by (rule add_auxiliary_records)
  then show "add_auxiliary tmpl f inst g' = Some g'" by (rule add_auxiliary_registered)
  assume "distinct (added_auxiliaries g)"
  then show "distinct (added_auxiliaries g')"
    using add_auxiliary_grows_both(1) [of tmpl f inst g] a by (simp add: aux_grows_def)
next
  assume "(f, inst) \<notin> set (added_auxiliaries g) \<and> add_auxiliary tmpl f inst g = Some g'"
  then show "\<exists>t. t \<noteq> [] \<and> auxiliaries g' = auxiliaries g @ t"
    using add_auxiliary_emits by blast
next
  assume "\<forall>k. template_ok (tmpl k)"
  then show "\<exists>g1. add_auxiliary tmpl f inst g = Some g1"
    using add_auxiliary_total_both(1) [of tmpl f inst g] by blast
next
  assume a: "add_auxiliary tmpl f inst g = Some g' \<and> inst2 \<noteq> inst
        \<and> (f, inst2) \<notin> set (added_auxiliaries g) \<and> add_auxiliary tmpl f inst2 g' = Some g''"
  then show n: "(f, inst2) \<notin> set (added_auxiliaries g')"
    using add_auxiliary_other_inst [of tmpl f inst g g' inst2] by blast
  show "(f, inst2) \<in> set (added_auxiliaries g'')"
    using a add_auxiliary_records by blast
  show "\<exists>t. t \<noteq> [] \<and> auxiliaries g'' = auxiliaries g' @ t"
    using a n add_auxiliary_emits by blast
qed

text \<open>
  The instance: \<open>fill\<close> for \<open>casadi_real\<close> requested of a new generator, requested again,
  and then requested for \<open>int\<close>.
\<close>

theorem C2_auxiliary_emitted_once_witness:
  "(AUX_FILL, [''casadi_real'']) \<notin> set (added_auxiliaries CodeGenerator_new)
   \<and> (\<forall>k. template_ok (sample_templates k))
   \<and> add_auxiliary sample_templates AUX_FILL [''casadi_real''] CodeGenerator_new = Some after_fill
   \<and> auxiliaries after_fill = auxiliaries CodeGenerator_new @ fill_text
   \<and> add_auxiliary sample_templates AUX_FILL [''casadi_real''] after_fill = Some after_fill
   \<and> distinct (added_auxiliaries after_fill)
   \<and> (AUX_FILL, [''int'']) \<notin> set (added_auxiliaries after_fill)
   \<and> add_auxiliary sample_templates AUX_FILL [''int''] after_fill = Some after_fill_int
   \<and> (AUX_FILL, [''int'']) \<in> set (added_auxiliaries after_fill_int)
   \<and> auxiliaries after_fill_int = auxiliaries after_fill @ fill_int_text"
proof -
  note T = C2_auxiliary_emitted_once [where tmpl = sample_templates and f = AUX_FILL
      and inst = "[''casadi_real'']" and g = CodeGenerator_new and g' = after_fill
      and ?inst2.0 = "[''int'']" and g'' = after_fill_int]
  have n: "(AUX_FILL, [''casadi_real'']) \<notin> set (added_auxiliaries CodeGenerator_new)"
    and d: "distinct (added_auxiliaries CodeGenerator_new)"
    and n2: "(AUX_FILL, [''int'']) \<notin> set (added_auxiliaries CodeGenerator_new)"
    by (simp_all add: CodeGenerator_new_def members_initial_def add_include_def)
  have again: "add_auxiliary sample_templates AUX_FILL [''casadi_real''] after_fill = Some after_fill"
    and d': "distinct (added_auxiliaries after_fill)"
    using T [THEN conjunct2, THEN conjunct1] fill_first d by simp_all
  have other: "(AUX_FILL, [''int'']) \<notin> set (added_auxiliaries after_fill)
               \<and> (AUX_FILL, [''int'']) \<in> set (added_auxiliaries after_fill_int)"
    using T [THEN conjunct2, THEN conjunct2, THEN conjunct2, THEN conjunct2]
          fill_first fill_int_second n2 by simp
  have a1: "auxiliaries after_fill = auxiliaries CodeGenerator_new @ fill_text"
    and a2: "auxiliaries after_fill_int = auxiliaries after_fill @ fill_int_text"
    by (simp_all add: after_fill_def after_fill_int_def CodeGenerator_new_def members_initial_def
          add_include_def)
  show ?thesis
    using n sample_templates_ok fill_first again d' other fill_int_second a1 a2 by blast
qed

text \<open>
  C3. Registering a function that is registered already returns the name on record and
  leaves the generator as it is: nothing is added to the list of functions, to the buffer
  or to the body. So, for a function whose callbacks keep the registered entries, a
  second \<open>add_dependency\<close> returns the name the first one assigned and changes nothing
  that the first one produced. A first registration names the function \<open>casadi_f\<close> and
  the number of functions registered before it.
\<close>

theorem C3_add_dependency_twice:
  "(find_added f (added_functions g) = Some name \<longrightarrow> add_dependency deref f g = Inr (name, g))
   \<and> (callbacks_keep (deref f) \<and> add_dependency deref f g = Inr (name, g') \<longrightarrow>
        add_dependency deref f g' = Inr (name, g'))
   \<and> (find_added f (added_functions g) = None \<and> add_dependency deref f g = Inr (name, g') \<longrightarrow>
        name = ''casadi_f'' @ str_nat (length (added_functions g)))"
proof (intro conjI impI)
  assume "find_added f (added_functions g) = Some name"
  then show "add_dependency deref f g = Inr (name, g)" by (rule add_dependency_known)
next
  assume "callbacks_keep (deref f) \<and> add_dependency deref f g = Inr (name, g')"
  then have "find_added f (added_functions g') = Some name"
    using add_dependency_registers [of deref f g name g'] by blast
  then show "add_dependency deref f g' = Inr (name, g')" by (rule add_dependency_known)
next
  assume "find_added f (added_functions g) = None \<and> add_dependency deref f g = Inr (name, g')"
  then show "name = ''casadi_f'' @ str_nat (length (added_functions g))"
    by (auto simp: add_dependency_def shorthand_reg_def and_then_Inr Let_def)
qed

text \<open>
  The instance: the reference-counted sample function, registered with a new generator,
  gets the name \<open>casadi_f0\<close> and its dependency the name \<open>casadi_f1\<close>; registered again,
  it gets \<open>casadi_f0\<close> again and the generator, body included, stays as it is.
\<close>

theorem C3_add_dependency_twice_witness:
  "callbacks_keep (sample_functions 7)
   \<and> find_added 7 (added_functions CodeGenerator_new) = None
   \<and> add_dependency sample_functions 7 CodeGenerator_new = Inr (''casadi_f0'', after_register)
   \<and> ''casadi_f0'' = ''casadi_f'' @ str_nat (length (added_functions CodeGenerator_new))
   \<and> find_added 7 (added_functions after_register) = Some ''casadi_f0''
   \<and> add_dependency sample_functions 7 after_register = Inr (''casadi_f0'', after_register)
   \<and> add_dependency sample_functions 8 after_register = Inr (''casadi_f1'', after_register)"
proof -
  have n: "find_added 7 (added_functions CodeGenerator_new) = None"
    by (simp add: CodeGenerator_new_def members_initial_def add_include_def)
  have f7: "find_added 7 (added_functions after_register) = Some ''casadi_f0''"
    and f8: "find_added 8 (added_functions after_register) = Some ''casadi_f1''"
    by (simp_all add: after_register_def)
  have again: "add_dependency sample_functions 7 after_register = Inr (''casadi_f0'', after_register)"
    using C3_add_dependency_twice [of 7 CodeGenerator_new "''casadi_f0''" sample_functions
            after_register, THEN conjunct2, THEN conjunct1]
          sample_functions_keep register_first
    by simp
  have name: "''casadi_f0'' = ''casadi_f'' @ str_nat (length (added_functions CodeGenerator_new))"
    using C3_add_dependency_twice [of 7 CodeGenerator_new "''casadi_f0''" sample_functions
            after_register, THEN conjunct2, THEN conjunct2]
          n register_first
    by simp
  have dep: "add_dependency sample_functions 8 after_register = Inr (''casadi_f1'', after_register)"
    using C3_add_dependency_twice [of 8 after_register "''casadi_f1''" sample_functions,
            THEN conjunct1] f8
    by simp
  show ?thesis
    using sample_functions_keep n register_first name f7 again dep by blast
qed



text \<open>
  C5. A read-only lookup (\<open>get_constant\<close> with \<open>allow_adding\<close> false) of a payload that is
  element-wise equal to no entry of the pool fails with the exception \<open>Constant not found\<close>
  and inserts nothing: the generator, with its vector of constants and its hash index, is
  after the failed lookup what it was before. This holds for the \<open>double\<close> pool and for the
  \<open>int\<close> pool.
\<close>

theorem C5_read_only_lookup_fails:
  assumes "pools_ok g"
  shows "(\<not> (\<exists>c \<in> set (double_constants g). equal_vec double_eq v c) \<longrightarrow>
            get_constant_double hc v False g = (Inl (CasadiException ''Constant not found''), g))
       \<and> (\<not> (\<exists>c \<in> set (integer_constants g). equal_vec (=) w c) \<longrightarrow>
            get_constant_int hcv w False g = (Inl (CasadiException ''Constant not found''), g))"
  using assms by (blast intro: lookup_fails_double lookup_fails_int)

theorem C5_read_only_lookup_fails_witness:
  "pools_ok (serve_all hash_combine_mix hash_combine_mix_vec
      [Double [0x3FF0000000000000, 0x4000000000000000] True, Integer [1, 2] True] CodeGenerator_new)
   \<and> double_constants (serve_all hash_combine_mix hash_combine_mix_vec
      [Double [0x3FF0000000000000, 0x4000000000000000] True, Integer [1, 2] True] CodeGenerator_new)
        = [[0x3FF0000000000000, 0x4000000000000000]]
   \<and> integer_constants (serve_all hash_combine_mix hash_combine_mix_vec
      [Double [0x3FF0000000000000, 0x4000000000000000] True, Integer [1, 2] True] CodeGenerator_new)
        = [[1, 2]]
   \<and> get_constant_double hash_combine_mix [0x3FF0000000000000, 0x4008000000000000] False
        (serve_all hash_combine_mix hash_combine_mix_vec
          [Double [0x3FF0000000000000, 0x4000000000000000] True, Integer [1, 2] True] CodeGenerator_new)
      = (Inl (CasadiException ''Constant not found''),
         serve_all hash_combine_mix hash_combine_mix_vec
          [Double [0x3FF0000000000000, 0x4000000000000000] True, Integer [1, 2] True] CodeGenerator_new)
   \<and> get_constant_int hash_combine_mix_vec [1, 3] False
        (serve_all hash_combine_mix hash_combine_mix_vec
          [Double [0x3FF0000000000000, 0x4000000000000000] True, Integer [1, 2] True] CodeGenerator_new)
      = (Inl (CasadiException ''Constant not found''),
         serve_all hash_combine_mix hash_combine_mix_vec
          [Double [0x3FF0000000000000, 0x4000000000000000] True, Integer [1, 2] True] CodeGenerator_new)"
proof -
  define G where "G = serve_all hash_combine_mix hash_combine_mix_vec
      [Double [0x3FF0000000000000, 0x4000000000000000] True, Integer [1, 2] True] CodeGenerator_new"
  have ok0: "pools_ok CodeGenerator_new"
    by (simp add: pools_ok_def index_ok_def CodeGenerator_new_def members_initial_def
          add_include_def)
  have ok: "pools_ok G"
    unfolding G_def using serve_all_grows [OF ok0] by blast
  have d: "double_constants G = [[0x3FF0000000000000, 0x4000000000000000]]"
    by (simp add: G_def serve_all_def get_constant_double_def get_constant_int_def
          CodeGenerator_new_def members_initial_def add_include_def equal_range_def Let_def)
  have i: "integer_constants G = [[1, 2]]"
    by (simp add: G_def serve_all_def get_constant_double_def get_constant_int_def
          CodeGenerator_new_def members_initial_def add_include_def equal_range_def Let_def)
  have nd: "\<not> (\<exists>c \<in> set (double_constants G). equal_vec double_eq [0x3FF0000000000000, 0x4008000000000000] c)"
    by (simp add: d equal_vec_def double_eq_def is_nan_def is_zero_def)
  have ni: "\<not> (\<exists>c \<in> set (integer_constants G). equal_vec (=) [1, 3] c)"
    by (simp add: i equal_vec_def)
  show ?thesis
    using C5_read_only_lookup_fails [OF ok, where v = "[0x3FF0000000000000, 0x4008000000000000]"
            and hc = hash_combine_mix and w = "[1, 3]" and hcv = hash_combine_mix_vec] nd ni ok d i
    unfolding G_def by blast
qed

text \<open>
  C6. A request for \<open>densify\<close> with the one-element instantiation list \<open>[t]\<close>, not on
  record yet:
  \<^item> where \<open>fill\<close> with the default instantiation is not on record either, the request
    records both pairs, emits \<open>fill\<close>, then emits the \<open>densify\<close> template specialized with
    the two-element list \<open>[t, t]\<close>;
  \<^item> where \<open>fill\<close> is on record, \<open>fill\<close> is not emitted again and only the \<open>densify\<close>
    template follows, specialized with \<open>[t, t]\<close>;
  \<^item> afterwards \<open>fill\<close> is on record, once in a record without repetitions, and a repeated
    request for \<open>densify\<close> or for \<open>fill\<close> changes nothing;
  \<^item> the request returns when the two templates quote no empty symbol or key.
\<close>

theorem C6_densify_requests_fill:
  "((AUX_DENSIFY, [t]) \<notin> set (added_auxiliaries g)
      \<and> (AUX_FILL, default_inst) \<notin> set (added_auxiliaries g) \<longrightarrow>
      add_auxiliary tmpl AUX_DENSIFY [t] g
      = do {
          g1 \<leftarrow> emit_auxiliary (tmpl AUX_FILL) default_inst
                  (g\<lparr>added_auxiliaries := added_auxiliaries g
                       @ [(AUX_DENSIFY, [t]), (AUX_FILL, default_inst)]\<rparr>);
          emit_auxiliary (tmpl AUX_DENSIFY) [t, t] g1
        })
   \<and> ((AUX_DENSIFY, [t]) \<notin> set (added_auxiliaries g)
      \<and> (AUX_FILL, default_inst) \<in> set (added_auxiliaries g) \<longrightarrow>
      add_auxiliary tmpl AUX_DENSIFY [t] g
      = emit_auxiliary (tmpl AUX_DENSIFY) [t, t]
          (g\<lparr>added_auxiliaries := added_auxiliaries g @ [(AUX_DENSIFY, [t])]\<rparr>))
   \<and> ((AUX_DENSIFY, [t]) \<notin> set (added_auxiliaries g)
      \<and> add_auxiliary tmpl AUX_DENSIFY [t] g = Some g' \<longrightarrow>
        (AUX_FILL, default_inst) \<in> set (added_auxiliaries g')
        \<and> add_auxiliary tmpl AUX_DENSIFY [t] g' = Some g'
        \<and> add_auxiliary tmpl AUX_FILL default_inst g' = Some g'
        \<and> (distinct (added_auxiliaries g) \<longrightarrow>
             count_list (added_auxiliaries g') (AUX_FILL, default_inst) = 1))
   \<and> (template_ok (tmpl AUX_FILL) \<and> template_ok (tmpl AUX_DENSIFY) \<longrightarrow>
        (\<exists>g1. add_auxiliary tmpl AUX_DENSIFY [t] g = Some g1))"
proof (intro conjI impI)
  assume "(AUX_DENSIFY, [t]) \<notin> set (added_auxiliaries g)
      \<and> (AUX_FILL, default_inst) \<notin> set (added_auxiliaries g)"
  then show "add_auxiliary tmpl AUX_DENSIFY [t] g
      = do {
          g1 \<leftarrow> emit_auxiliary (tmpl AUX_FILL) default_inst
                  (g\<lparr>added_auxiliaries := added_auxiliaries g
                       @ [(AUX_DENSIFY, [t]), (AUX_FILL, default_inst)]\<rparr>);
          emit_auxiliary (tmpl AUX_DENSIFY) [t, t] g1
        }"
    by (simp add: densify_fresh)
next
  assume "(AUX_DENSIFY, [t]) \<notin> set (added_auxiliaries g)
      \<and> (AUX_FILL, default_inst) \<in> set (added_auxiliaries g)"
  then show "add_auxiliary tmpl AUX_DENSIFY [t] g
      = emit_auxiliary (tmpl AUX_DENSIFY) [t, t]
          (g\<lparr>added_auxiliaries := added_auxiliaries g @ [(AUX_DENSIFY, [t])]\<rparr>)"
    by (simp add: densify_fill_known)
next
  assume a: "(AUX_DENSIFY, [t]) \<notin> set (added_auxiliaries g)
      \<and> add_auxiliary tmpl AUX_DENSIFY [t] g = Some g'"
  then show f: "(AUX_FILL, default_inst) \<in> set (added_auxiliaries g')"
    using densify_records_fill by blast
  show "add_auxiliary tmpl AUX_DENSIFY [t] g' = Some g'"
    using a add_auxiliary_records add_auxiliary_registered by blast
  show "add_auxiliary tmpl AUX_FILL default_inst g' = Some g'"
    using f by (rule add_auxiliary_registered)
  assume "distinct (added_auxiliaries g)"
  then have "distinct (added_auxiliaries g')"
    using add_auxiliary_grows_both(1) [of tmpl AUX_DENSIFY "[t]" g] a by (simp add: aux_grows_def)
  then show "count_list (added_auxiliaries g') (AUX_FILL, default_inst) = 1"
    using f by (rule distinct_count_list)
next
  assume "template_ok (tmpl AUX_FILL) \<and> template_ok (tmpl AUX_DENSIFY)"
  then show "\<exists>g1. add_auxiliary tmpl AUX_DENSIFY [t] g = Some g1"
    using densify_total by blast
qed

text \<open>
  The instance: \<open>densify\<close> for \<open>double\<close> requested of a new generator. The auxiliary
  section holds \<open>fill\<close> and then \<open>densify\<close> specialized for \<open>double\<close> twice; a second
  request changes nothing.
\<close>

theorem C6_densify_requests_fill_witness:
  "(AUX_DENSIFY, [''double'']) \<notin> set (added_auxiliaries CodeGenerator_new)
   \<and> (AUX_FILL, default_inst) \<notin> set (added_auxiliaries CodeGenerator_new)
   \<and> distinct (added_auxiliaries CodeGenerator_new)
   \<and> template_ok (sample_templates AUX_FILL) \<and> template_ok (sample_templates AUX_DENSIFY)
   \<and> add_auxiliary sample_templates AUX_DENSIFY [''double''] CodeGenerator_new = Some after_densify
   \<and> auxiliaries after_densify = fill_text @ densify_text
   \<and> (AUX_FILL, default_inst) \<in> set (added_auxiliaries after_densify)
   \<and> count_list (added_auxiliaries after_densify) (AUX_FILL, default_inst) = 1
   \<and> add_auxiliary sample_templates AUX_DENSIFY [''double''] after_densify = Some after_densify
   \<and> add_auxiliary sample_templates AUX_FILL default_inst after_densify = Some after_densify"
proof -
  note T = C6_densify_requests_fill [where tmpl = sample_templates and t = "''double''"
      and g = CodeGenerator_new and g' = after_densify]
  have n: "(AUX_DENSIFY, [''double'']) \<notin> set (added_auxiliaries CodeGenerator_new)"
    and n2: "(AUX_FILL, default_inst) \<notin> set (added_auxiliaries CodeGenerator_new)"
    and d: "distinct (added_auxiliaries CodeGenerator_new)"
    by (simp_all add: CodeGenerator_new_def members_initial_def add_include_def)
  have r: "(AUX_FILL, default_inst) \<in> set (added_auxiliaries after_densify)
        \<and> add_auxiliary sample_templates AUX_DENSIFY [''double''] after_densify = Some after_densify
        \<and> add_auxiliary sample_templates AUX_FILL default_inst after_densify = Some after_densify
        \<and> count_list (added_auxiliaries after_densify) (AUX_FILL, default_inst) = 1"
    using T [THEN conjunct2, THEN conjunct2, THEN conjunct1] n d densify_first by simp
  have a: "auxiliaries after_densify = fill_text @ densify_text"
    by (simp add: after_densify_def)
  show ?thesis
    using n n2 d sample_templates_ok densify_first a r by blast
qed

text \<open>
  C7. In \<open>sanitize_source\<close> (registering shorthands, as every call of the sources does), a
  line that starts with \<open>// SYMBOL\<close> registers the shorthand made of the quoted symbol
  and the suffix, whatever the replacements and the text collected so far. The suffix is
  not empty exactly when the instantiation list holds a type other than \<open>casadi_real\<close>,
  and is then \<open>_\<close> and the type, for each type of the list. With an empty suffix the symbol
  is registered as it is and the replacements are left as they were; otherwise the rename
  of the symbol to the suffixed name is added to them. Over a whole template, the
  shorthands registered are those of its symbol lines.
\<close>

theorem C7_symbol_directive:
  "(find_str line ''// SYMBOL'' 0 = 0 \<longrightarrow>
      sanitize_line True (inst_suffix inst) line (rep, ret, g)
      = Some (if inst_suffix inst = [] then rep
              else rep @ [(fst (quoted line 0), fst (quoted line 0) @ inst_suffix inst)],
              ret,
              g\<lparr>added_shorthands :=
                  insert (fst (quoted line 0) @ inst_suffix inst) (added_shorthands g)\<rparr>))
   \<and> ((inst_suffix inst \<noteq> []) = (\<exists>t \<in> set inst. t \<noteq> ''casadi_real''))
   \<and> (inst_suffix inst \<noteq> [] \<longrightarrow> inst_suffix inst = concat (map (\<lambda>t. ''_'' @ t) inst))
   \<and> (sanitize_source src inst True g = Some (out, g') \<longrightarrow>
        added_shorthands g' = added_shorthands g
          \<union> (\<lambda>l. fst (quoted l 0) @ inst_suffix inst)
              ` {l \<in> set (getlines src). find_str l ''// SYMBOL'' 0 = 0})"
proof (intro conjI impI)
  assume "find_str line ''// SYMBOL'' 0 = 0"
  then show "sanitize_line True (inst_suffix inst) line (rep, ret, g)
      = Some (if inst_suffix inst = [] then rep
              else rep @ [(fst (quoted line 0), fst (quoted line 0) @ inst_suffix inst)],
              ret,
              g\<lparr>added_shorthands :=
                  insert (fst (quoted line 0) @ inst_suffix inst) (added_shorthands g)\<rparr>)"
    by (rule sanitize_line_symbol)
next
  show "(inst_suffix inst \<noteq> []) = (\<exists>t \<in> set inst. t \<noteq> ''casadi_real'')"
    by (rule inst_suffix_nonempty)
next
  assume "inst_suffix inst \<noteq> []"
  then show "inst_suffix inst = concat (map (\<lambda>t. ''_'' @ t) inst)"
    by (simp add: inst_suffix_eq split: if_splits)
next
  assume "sanitize_source src inst True g = Some (out, g')"
  then show "added_shorthands g' = added_shorthands g
          \<union> (\<lambda>l. fst (quoted l 0) @ inst_suffix inst)
              ` {l \<in> set (getlines src). find_str l ''// SYMBOL'' 0 = 0}"
    by (rule sanitize_source_shorthands)
qed

text \<open>
  The instance: the line \<open>// SYMBOL "fill"\<close> for the instantiations \<open>int\<close> and
  \<open>casadi_real\<close>, and the template it opens.
\<close>

theorem C7_symbol_directive_witness:
  "find_str symbol_fill ''// SYMBOL'' 0 = 0
   \<and> fst (quoted symbol_fill 0) = ''fill''
   \<and> inst_suffix [''int''] = ''_int''
   \<and> sanitize_line True (inst_suffix [''int'']) symbol_fill ([], [], CodeGenerator_new)
      = Some ([(''fill'', ''fill_int'')], [], CodeGenerator_new\<lparr>added_shorthands := {''fill_int''}\<rparr>)
   \<and> inst_suffix [''casadi_real''] = []
   \<and> sanitize_line True (inst_suffix [''casadi_real'']) symbol_fill ([], [], CodeGenerator_new)
      = Some ([], [], CodeGenerator_new\<lparr>added_shorthands := {''fill''}\<rparr>)
   \<and> map_option (\<lambda>r. (fst r, added_shorthands (snd r)))
        (sanitize_source fill_template [''int''] True CodeGenerator_new)
      = Some (''void casadi_fill_int(int* x, int a) {'' @ endl @ ''  *x = a;'' @ endl
               @ ''}'' @ endl @ endl, {''fill_int''})"
proof -
  have f: "find_str symbol_fill ''// SYMBOL'' 0 = 0"
    by (simp add: symbol_fill_def find_str_def)
  have q: "fst (quoted symbol_fill 0) = ''fill''"
    by (simp add: symbol_fill_def quoted_def find_str_def npos_def sz_plus_def sz_minus_def
          substr_def Let_def)
  have s1: "inst_suffix [''int''] = ''_int''" and s2: "inst_suffix [''casadi_real''] = []"
    by (simp_all add: inst_suffix_def)
  have e: "added_shorthands CodeGenerator_new = {}"
    by (simp add: CodeGenerator_new_def members_initial_def add_include_def)
  have w: "map_option (\<lambda>r. (fst r, added_shorthands (snd r)))
        (sanitize_source fill_template [''int''] True CodeGenerator_new)
      = Some (''void casadi_fill_int(int* x, int a) {'' @ endl @ ''  *x = a;'' @ endl
               @ ''}'' @ endl @ endl, {''fill_int''})"
    by (simp add: fill_template_def symbol_fill_def sanitize_source_def getlines.simps endl_def
          inst_suffix_def initial_rep_def sanitize_line_def find_str_def npos_def quoted_def
          sz_plus_def sz_minus_def substr_def shorthand_reg_def erase_from_def
          find_last_not_of_def replace_from.simps replace_str_def str_nat.simps digit_char_def
          Let_def CodeGenerator_new_def members_initial_def add_include_def)
  show ?thesis
    using C7_symbol_directive [where line = symbol_fill and inst = "[''int'']" and rep = "[]"
            and ret = "[]" and g = CodeGenerator_new and src = "[]"]
          C7_symbol_directive [where line = symbol_fill and inst = "[''casadi_real'']"
            and rep = "[]" and ret = "[]" and g = CodeGenerator_new and src = "[]"]
          f q s1 s2 e w
    by simp
qed

text \<open>
  C8. The text of a \<open>double\<close> constant is
  \<^item> \<open>NAN\<close> for a NaN, and \<open>INFINITY\<close> or \<open>-INFINITY\<close> for an infinity;
  \<^item> for a finite integral value that an \<open>int\<close> holds: that integer and a point;
  \<^item> for a finite value that is not integral: what the stream writes in scientific notation
    with \<open>digits10 + 1\<close> digits behind the point;
  \<^item> for a finite integral value that no \<open>int\<close> holds: scientific notation too, whatever
    the unguarded conversion leaves in \<open>v_int\<close>. Here the code departs from the claim, which
    has every integral value written as an integer literal.
\<close>

theorem C8_constant_text:
  "(is_nan v \<longrightarrow> constant_double sci ub v = ''NAN'')
   \<and> (is_inf v \<longrightarrow>
        constant_double sci ub v = (if sign_bit v then ''-INFINITY'' else ''INFINITY''))
   \<and> (\<not> is_nan v \<and> \<not> is_inf v \<and> is_integral v \<and> fits_int v \<longrightarrow>
        constant_double sci ub v = str_int (truncated v) @ ''.''
        \<and> nat \<bar>truncated v\<bar> * 2 ^ 1075 = significand v * 2 ^ exponent_scale v)
   \<and> (\<not> is_nan v \<and> \<not> is_inf v \<and> \<not> is_integral v \<longrightarrow>
        constant_double sci ub v = sci (digits10 + 1) v)
   \<and> (\<not> is_nan v \<and> \<not> is_inf v \<and> is_integral v \<and> \<not> fits_int v \<longrightarrow>
        constant_double sci ub v = sci (digits10 + 1) v)"
proof (intro conjI impI)
  assume "is_nan v"
  then show "constant_double sci ub v = ''NAN''" by (rule constant_double_nan)
next
  assume "is_inf v"
  then show "constant_double sci ub v = (if sign_bit v then ''-INFINITY'' else ''INFINITY'')"
    by (rule constant_double_inf)
next
  assume a: "\<not> is_nan v \<and> \<not> is_inf v \<and> is_integral v \<and> fits_int v"
  then show "constant_double sci ub v = str_int (truncated v) @ ''.''"
    using constant_double_integral(1) by blast
  show "nat \<bar>truncated v\<bar> * 2 ^ 1075 = significand v * 2 ^ exponent_scale v"
    using a constant_double_integral(2) by blast
next
  assume "\<not> is_nan v \<and> \<not> is_inf v \<and> \<not> is_integral v"
  then show "constant_double sci ub v = sci (digits10 + 1) v"
    using constant_double_scientific by blast
next
  assume "\<not> is_nan v \<and> \<not> is_inf v \<and> is_integral v \<and> \<not> fits_int v"
  then show "constant_double sci ub v = sci (digits10 + 1) v"
    using constant_double_scientific by blast
qed

text \<open>
  The instance: a NaN, the two infinities, \<open>3.0\<close>, \<open>-0.0\<close> and \<open>1.5\<close>, and \<open>2147483648.0\<close>:
  finite and integral, one more than the largest \<open>int\<close>, and written in scientific
  notation where the claim has the integer literal \<open>2147483648.\<close>
\<close>

theorem C8_constant_text_witness:
  "is_nan 0x7FF8000000000000
   \<and> constant_double scientific_sample indefinite_x86 0x7FF8000000000000 = ''NAN''
   \<and> is_inf 0x7FF0000000000000 \<and> \<not> sign_bit 0x7FF0000000000000
   \<and> constant_double scientific_sample indefinite_x86 0x7FF0000000000000 = ''INFINITY''
   \<and> is_inf 0xFFF0000000000000 \<and> sign_bit 0xFFF0000000000000
   \<and> constant_double scientific_sample indefinite_x86 0xFFF0000000000000 = ''-INFINITY''
   \<and> truncated 0x4008000000000000 = 3 \<and> is_integral 0x4008000000000000
   \<and> constant_double scientific_sample indefinite_x86 0x4008000000000000 = ''3.''
   \<and> truncated 0x8000000000000000 = 0 \<and> is_integral 0x8000000000000000
   \<and> constant_double scientific_sample indefinite_x86 0x8000000000000000 = ''0.''
   \<and> truncated 0x3FF8000000000000 = 1 \<and> \<not> is_integral 0x3FF8000000000000
   \<and> constant_double scientific_sample indefinite_x86 0x3FF8000000000000
       = ''1.5000000000000000e+00''
   \<and> \<not> is_nan 0x41E0000000000000 \<and> \<not> is_inf 0x41E0000000000000
   \<and> truncated 0x41E0000000000000 = 2147483648 \<and> is_integral 0x41E0000000000000
   \<and> \<not> fits_int 0x41E0000000000000
   \<and> constant_double scientific_sample indefinite_x86 0x41E0000000000000
       = ''2.1474836480000000e+09''
   \<and> str_int 2147483648 @ ''.'' = ''2147483648.''"
proof -
  note ev = is_nan_def is_inf_def sign_bit_def fits_int_def truncated_def magnitude_trunc_def
    is_integral_def exponent_scale_def significand_def exponent_field_def fraction_field_def
  have nan: "is_nan 0x7FF8000000000000" by (simp add: ev)
  have inf: "is_inf 0x7FF0000000000000" "\<not> sign_bit 0x7FF0000000000000"
    "is_inf 0xFFF0000000000000" "sign_bit 0xFFF0000000000000"
    by (simp_all add: ev)
  have three: "\<not> is_nan 0x4008000000000000" "\<not> is_inf 0x4008000000000000"
    "truncated 0x4008000000000000 = 3" "is_integral 0x4008000000000000"
    "fits_int 0x4008000000000000"
    by (simp_all add: ev)
  have zero: "\<not> is_nan 0x8000000000000000" "\<not> is_inf 0x8000000000000000"
    "truncated 0x8000000000000000 = 0" "is_integral 0x8000000000000000"
    "fits_int 0x8000000000000000"
    by (simp_all add: ev)
  have half: "\<not> is_nan 0x3FF8000000000000" "\<not> is_inf 0x3FF8000000000000"
    "truncated 0x3FF8000000000000 = 1" "\<not> is_integral 0x3FF8000000000000"
    by (simp_all add: ev)
  have big: "\<not> is_nan 0x41E0000000000000" "\<not> is_inf 0x41E0000000000000"
    "truncated 0x41E0000000000000 = 2147483648" "is_integral 0x41E0000000000000"
    "\<not> fits_int 0x41E0000000000000"
    by (simp_all add: ev)
  have s: "str_int 3 @ ''.'' = ''3.''" "str_int 0 @ ''.'' = ''0.''"
    "scientific_sample (digits10 + 1) 0x3FF8000000000000 = ''1.5000000000000000e+00''"
    "scientific_sample (digits10 + 1) 0x41E0000000000000 = ''2.1474836480000000e+09''"
    "str_int 2147483648 @ ''.'' = ''2147483648.''"
    by (simp_all add: str_int_def str_nat.simps digit_char_def scientific_sample_def digits10_def)
  have r1: "constant_double scientific_sample indefinite_x86 0x7FF8000000000000 = ''NAN''"
    using C8_constant_text [where v = "0x7FF8000000000000" and sci = scientific_sample
            and ub = indefinite_x86, THEN conjunct1] nan
    by blast
  have r2: "constant_double scientific_sample indefinite_x86 0x7FF0000000000000 = ''INFINITY''"
    using C8_constant_text [where v = "0x7FF0000000000000" and sci = scientific_sample
            and ub = indefinite_x86, THEN conjunct2, THEN conjunct1] inf(1,2)
    by simp
  have r3: "constant_double scientific_sample indefinite_x86 0xFFF0000000000000 = ''-INFINITY''"
    using C8_constant_text [where v = "0xFFF0000000000000" and sci = scientific_sample
            and ub = indefinite_x86, THEN conjunct2, THEN conjunct1] inf(3,4)
    by simp
  have r4: "constant_double scientific_sample indefinite_x86 0x4008000000000000 = ''3.''"
    using C8_constant_text [where v = "0x4008000000000000" and sci = scientific_sample
            and ub = indefinite_x86, THEN conjunct2, THEN conjunct2, THEN conjunct1] three s(1)
    by metis
  have r5: "constant_double scientific_sample indefinite_x86 0x8000000000000000 = ''0.''"
    using C8_constant_text [where v = "0x8000000000000000" and sci = scientific_sample
            and ub = indefinite_x86, THEN conjunct2, THEN conjunct2, THEN conjunct1] zero s(2)
    by metis
  have r6: "constant_double scientific_sample indefinite_x86 0x3FF8000000000000
              = ''1.5000000000000000e+00''"
    using C8_constant_text [where v = "0x3FF8000000000000" and sci = scientific_sample
            and ub = indefinite_x86, THEN conjunct2, THEN conjunct2, THEN conjunct2,
            THEN conjunct1] half s(3)
    by metis
  have r7: "constant_double scientific_sample indefinite_x86 0x41E0000000000000
              = ''2.1474836480000000e+09''"
    using C8_constant_text [where v = "0x41E0000000000000" and sci = scientific_sample
            and ub = indefinite_x86, THEN conjunct2, THEN conjunct2, THEN conjunct2,
            THEN conjunct2] big s(4)
    by metis
  show ?thesis
    using nan inf three(3,4) zero(3,4) half(3,4) big r1 r2 r3 r4 r5 r6 r7 s(5) by blast
qed

text \<open>
  C9. Include requests and external-declaration requests are deduplicated by the exact
  request text: a request whose text is registered already changes nothing (the includes
  section and the set of external declarations stay as they are, whatever the other
  arguments of the repeated include request), and a request with a new text is added: the
  include line is appended to the includes section, the declaration joins the set.
\<close>

theorem C9_include_external_dedup:
  "add_include x r2 u2 (add_include x r1 u1 g) = add_include x r1 u1 g
   \<and> (x \<in> added_includes g \<longrightarrow> add_include x r1 u1 g = g)
   \<and> (x \<notin> added_includes g \<longrightarrow>
        added_includes (add_include x r1 u1 g) = insert x (added_includes g)
        \<and> (\<exists>t. t \<noteq> [] \<and> includes_stream (add_include x r1 u1 g) = includes_stream g @ t))
   \<and> add_external y (add_external y g) = add_external y g
   \<and> (y \<in> added_externals g \<longrightarrow> add_external y g = g)
   \<and> (y \<notin> added_externals g \<longrightarrow>
        added_externals (add_external y g) = insert y (added_externals g)
        \<and> add_external y g \<noteq> g)"
proof (intro conjI impI)
  show "add_include x r2 u2 (add_include x r1 u1 g) = add_include x r1 u1 g"
    by (simp add: add_include_def)
  show "add_external y (add_external y g) = add_external y g"
    by (simp add: add_external_def)
next
  assume "x \<in> added_includes g"
  then show "add_include x r1 u1 g = g" by (simp add: add_include_def)
next
  assume n: "x \<notin> added_includes g"
  then show "added_includes (add_include x r1 u1 g) = insert x (added_includes g)"
    by (simp add: add_include_def)
  show "\<exists>t. t \<noteq> [] \<and> includes_stream (add_include x r1 u1 g) = includes_stream g @ t"
    using n by (simp add: add_include_def endl_def)
next
  assume "y \<in> added_externals g"
  then show "add_external y g = g" by (simp add: add_external_def insert_absorb)
next
  assume n: "y \<notin> added_externals g"
  show "added_externals (add_external y g) = insert y (added_externals g)"
    by (simp add: add_external_def)
  have "added_externals (add_external y g) \<noteq> added_externals g"
    using n by (auto simp: add_external_def)
  then show "add_external y g \<noteq> g" by auto
qed

theorem C9_include_external_dedup_witness:
  "''math.h'' \<in> added_includes CodeGenerator_new
   \<and> add_include ''math.h'' True ''X'' CodeGenerator_new = CodeGenerator_new
   \<and> ''stdio.h'' \<notin> added_includes CodeGenerator_new
   \<and> includes_stream (add_include ''stdio.h'' False [] CodeGenerator_new)
       = includes_stream CodeGenerator_new @ ''#include <stdio.h>'' @ endl
   \<and> ''int f(void);'' \<notin> added_externals CodeGenerator_new
   \<and> added_externals (add_external ''int f(void);'' CodeGenerator_new) = {''int f(void);''}
   \<and> ''int f(void);'' \<in> added_externals (add_external ''int f(void);'' CodeGenerator_new)
   \<and> add_external ''int f(void);'' (add_external ''int f(void);'' CodeGenerator_new)
       = add_external ''int f(void);'' CodeGenerator_new"
  using C9_include_external_dedup [of "''math.h''" True "''X''" False "[]" members_initial
          "''int f(void);''"]
        C9_include_external_dedup [of "''math.h''" True "''X''" False "[]" CodeGenerator_new
          "''int f(void);''"]
        C9_include_external_dedup [of "''stdio.h''" True "''X''" False "[]" CodeGenerator_new
          "''int f(void);''"]
        C9_include_external_dedup [of "''stdio.h''" True "''X''" False "[]" CodeGenerator_new
          "''int f(void);''" ]
        C9_include_external_dedup [of "''stdio.h''" True "''X''" False "[]"
          "add_external ''int f(void);'' CodeGenerator_new" "''int f(void);''" ]
  by (simp add: CodeGenerator_new_def members_initial_def add_include_def add_external_def)

text \<open>
  C10. For a custom IO scheme built from pairwise-distinct entry names (fewer than
  \<open>2^31\<close> of them, so that the \<open>int\<close> loop counter of the constructor does not overflow),
  \<open>index (entry i) = i\<close> for every \<open>0 \<le> i < size\<close>; \<open>entry\<close> with an index outside that
  range fails with an exception, and \<open>index\<close> with a name that is not in the list fails
  with an exception instead of returning a value.
\<close>

theorem C10_index_entry_roundtrip:
  assumes "distinct es" and "length es < 2 ^ 31"
  shows "(0 \<le> i \<and> i < int (size_io (IOSchemeCustom es)) \<longrightarrow>
            (\<exists>e. entry (IOSchemeCustom es) i = Inr e \<and> index (IOSchemeCustom es) e = Inr i))
       \<and> (\<not> (0 \<le> i \<and> i < int (size_io (IOSchemeCustom es))) \<longrightarrow>
            failed (entry (IOSchemeCustom es) i))
       \<and> (name \<notin> set es \<longrightarrow> failed (index (IOSchemeCustom es) name))"
proof (intro conjI impI)
  assume r: "0 \<le> i \<and> i < int (size_io (IOSchemeCustom es))"
  then have k: "nat i < length es" by (auto simp: size_io_def IOSchemeCustom_def)
  have "fill_entrymap es 0 Map.empty (es ! nat i) = Some (int (nat i))"
    using assms(1) k by (intro fill_entrymap_distinct) simp_all
  then show "\<exists>e. entry (IOSchemeCustom es) i = Inr e \<and> index (IOSchemeCustom es) e = Inr i"
    using r k by (simp add: entry_def index_def IOSchemeCustom_def)
next
  assume "\<not> (0 \<le> i \<and> i < int (size_io (IOSchemeCustom es)))"
  then show "failed (entry (IOSchemeCustom es) i)"
    by (simp add: entry_def failed_def size_io_def IOSchemeCustom_def)
next
  assume "name \<notin> set es"
  then have "\<forall>j. 0 \<le> j \<and> j < length es \<longrightarrow> es ! j \<noteq> name" by auto
  then have "fill_entrymap es 0 Map.empty name = None"
    by (simp add: fill_entrymap_other)
  then show "failed (index (IOSchemeCustom es) name)"
    by (simp add: index_def failed_def IOSchemeCustom_def)
qed

theorem C10_index_entry_roundtrip_witness:
  "distinct [''x'', ''p'', ''u''] \<and> length [''x'', ''p'', ''u''] < (2::nat) ^ 31
   \<and> entry (IOSchemeCustom [''x'', ''p'', ''u'']) 1 = Inr ''p''
   \<and> index (IOSchemeCustom [''x'', ''p'', ''u'']) ''p'' = Inr 1
   \<and> failed (entry (IOSchemeCustom [''x'', ''p'', ''u'']) 3)
   \<and> failed (entry (IOSchemeCustom [''x'', ''p'', ''u'']) (- 1))
   \<and> failed (index (IOSchemeCustom [''x'', ''p'', ''u'']) ''z'')"
proof -
  have d: "distinct [''x'', ''p'', ''u'']" by simp
  have l: "length [''x'', ''p'', ''u''] < (2::nat) ^ 31" by simp
  have sz: "size_io (IOSchemeCustom [''x'', ''p'', ''u'']) = 3"
    by (simp add: size_io_def IOSchemeCustom_def)
  have e1: "entry (IOSchemeCustom [''x'', ''p'', ''u'']) 1 = Inr ''p''"
    by (simp add: entry_def IOSchemeCustom_def)
  show ?thesis
    using C10_index_entry_roundtrip [OF d l, of 1 "''z''"]
          C10_index_entry_roundtrip [OF d l, of 3 "''z''"]
          C10_index_entry_roundtrip [OF d l, of "- 1" "''z''"]
    by (simp add: sz e1)
qed

end
